theory Spec2Isabelle
  imports Main "HOL-Library.Word"
begin

unbundle bit_operations_syntax

section \<open>Conventions of the embedding\<close>

text \<open>
  The development embeds \<^verbatim>\<open>include/sub0pub/sub0pub.hpp\<close>: the per-type \<^verbatim>\<open>Broker\<close>,
  the \<^verbatim>\<open>BufferRegister\<close>, the \<^verbatim>\<open>BinaryWriter\<close> and the \<^verbatim>\<open>BinaryReader\<close>.

  \<^item> An object is identified by its address, a natural number; \<^verbatim>\<open>nullptr\<close> is \<open>0\<close>.
  \<^item> \<^verbatim>\<open>assert(e)\<close> is a check: when \<open>e\<close> is false the call ends with
    \<open>AssertionFailure\<close> (the header never defines \<^verbatim>\<open>NDEBUG\<close>).
  \<^item> The two branches of \<^verbatim>\<open>#if __cpp_exceptions\<close> are selected by a flag of the model:
    \<^verbatim>\<open>throw std::runtime_error(msg)\<close> ends the call with \<open>RuntimeError msg\<close> and leaves
    the object as the statements before the \<^verbatim>\<open>throw\<close> left it.
  \<^item> Counts and sizes (\<^verbatim>\<open>uint32_t\<close>, \<^verbatim>\<open>uint_fast16_t\<close>) that the code only
    increments below a checked capacity or decrements above zero are natural numbers.
\<close>

datatype error = AssertionFailure | RuntimeError string | NullWrite

section \<open>Broker\<close>

text \<open>
  \<^verbatim>\<open>Broker<Data>::State\<close>: the count and the fixed table of \<^verbatim>\<open>cMaxSubscriptions\<close>
  subscriber pointers, value-initialised (all \<^verbatim>\<open>nullptr\<close>) by \<^verbatim>\<open>State()\<close>.
\<close>

definition cMaxSubscriptions :: nat where
  "cMaxSubscriptions = 8"

record Broker_State =
  subscriptionCount :: nat
  subscriptions :: "nat list"

definition State_ctor :: Broker_State where
  "State_ctor = \<lparr>subscriptionCount = 0, subscriptions = replicate cMaxSubscriptions 0\<rparr>"

text \<open>\<^verbatim>\<open>detail::Check::onSubscription\<close> with \<^verbatim>\<open>cDoAssert = true\<close>.\<close>

definition onSubscription :: "nat \<Rightarrow> nat \<Rightarrow> nat \<Rightarrow> error + unit" where
  "onSubscription subscriber subscriptionCount' subscriptionCapacity =
     (if subscriber = 0 then Inl AssertionFailure
      else if \<not> subscriptionCount' < subscriptionCapacity then Inl AssertionFailure
      else Inr ())"

text \<open>
  The constructor \<^verbatim>\<open>Broker(Subscribe<Data>* subscriber)\<close>:
  \<^verbatim>\<open>state_.subscriptions[state_.subscriptionCount++] = subscriber\<close> after the check.
\<close>

definition Broker_ctor :: "Broker_State \<Rightarrow> nat \<Rightarrow> error + Broker_State" where
  "Broker_ctor st subscriber =
     (case onSubscription subscriber (subscriptionCount st) cMaxSubscriptions of
        Inl e \<Rightarrow> Inl e
      | Inr _ \<Rightarrow>
          Inr (st\<lparr>subscriptions := (subscriptions st)[subscriptionCount st := subscriber],
                  subscriptionCount := subscriptionCount st + 1\<rparr>))"

text \<open>
  \<^verbatim>\<open>std::remove(first, last, v)\<close> on a list holding the whole array, the range being its
  first \<open>iLast\<close> elements: the elements different from \<open>v\<close> are shifted to the front in
  their order, the positions from the returned iterator on keep what they held (the
  elements are pointers, a move is a copy). The result is the array and the returned
  position.
\<close>

definition std_remove :: "'a list \<Rightarrow> nat \<Rightarrow> 'a \<Rightarrow> 'a list \<times> nat" where
  "std_remove xs iLast v =
     (let kept = filter (\<lambda>x. x \<noteq> v) (take iLast xs)
      in (kept @ drop (length kept) xs, length kept))"

text \<open>\<^verbatim>\<open>Broker::unsubscribe(Subscribe<Data>*)\<close>.\<close>

definition Broker_unsubscribe :: "Broker_State \<Rightarrow> nat \<Rightarrow> error + Broker_State" where
  "Broker_unsubscribe st subscriber =
     (let iEnd = subscriptionCount st;
          (table, iPend) = std_remove (subscriptions st) iEnd subscriber
      in if iEnd - iPend \<noteq> 1 then Inl AssertionFailure
         else Inr (st\<lparr>subscriptions := table, subscriptionCount := subscriptionCount st - 1\<rparr>))"

text \<open>
  \<^verbatim>\<open>Broker::publish\<close>. A subscriber is an object with the virtual members
  \<^verbatim>\<open>filter\<close> and \<^verbatim>\<open>receive\<close>; \<open>filt s\<close> is the filter of the object at address \<open>s\<close>
  (the default is \<open>\<lambda>_. True\<close>), and a call \<^verbatim>\<open>s->receive(data)\<close> is recorded as the pair
  \<open>(s, data)\<close> at the end of the log. \<^verbatim>\<open>onReceive\<close> asserts that the pointer is not null.
\<close>

function publish_from ::
  "(nat \<Rightarrow> 'd \<Rightarrow> bool) \<Rightarrow> Broker_State \<Rightarrow> 'd \<Rightarrow> nat \<Rightarrow> (nat \<times> 'd) list \<Rightarrow> error + (nat \<times> 'd) list"
where
  "publish_from filt st data iSubscription received =
     (if iSubscription < subscriptionCount st then
        (let subscription = subscriptions st ! iSubscription in
         if subscription = 0 then Inl AssertionFailure
         else publish_from filt st data (iSubscription + 1)
                (if filt subscription data then received @ [(subscription, data)] else received))
      else Inr received)"
  by pat_completeness auto
termination
  by (relation "measure (\<lambda>(filt, st, data, i, received). subscriptionCount st - i)") auto

declare publish_from.simps [simp del]

definition Broker_publish ::
  "(nat \<Rightarrow> 'd \<Rightarrow> bool) \<Rightarrow> Broker_State \<Rightarrow> 'd \<Rightarrow> error + (nat \<times> 'd) list" where
  "Broker_publish filt st data = publish_from filt st data 0 []"

text \<open>
  A history of a broker: constructions of \<^verbatim>\<open>Subscribe\<close> handles (each registers itself)
  and their destructions (each unregisters itself), stopped by the first failed assertion.
\<close>

datatype broker_call = Subscribe nat | Unsubscribe nat

fun Broker_run :: "Broker_State \<Rightarrow> broker_call list \<Rightarrow> error + Broker_State" where
  "Broker_run st [] = Inr st"
| "Broker_run st (Subscribe s # calls) =
     (case Broker_ctor st s of Inl e \<Rightarrow> Inl e | Inr st' \<Rightarrow> Broker_run st' calls)"
| "Broker_run st (Unsubscribe s # calls) =
     (case Broker_unsubscribe st s of Inl e \<Rightarrow> Inl e | Inr st' \<Rightarrow> Broker_run st' calls)"

text \<open>The subscribers a history leaves registered, in the order of their registration.\<close>

fun subscribers_after :: "nat list \<Rightarrow> broker_call list \<Rightarrow> nat list" where
  "subscribers_after ss [] = ss"
| "subscribers_after ss (Subscribe s # calls) = subscribers_after (ss @ [s]) calls"
| "subscribers_after ss (Unsubscribe s # calls) =
     subscribers_after (filter (\<lambda>p. p \<noteq> s) ss) calls"

text \<open>The live part of the table, and the invariant of the states a history reaches.\<close>

definition registered :: "Broker_State \<Rightarrow> nat list" where
  "registered st = take (subscriptionCount st) (subscriptions st)"

definition Broker_inv :: "Broker_State \<Rightarrow> bool" where
  "Broker_inv st \<longleftrightarrow>
     length (subscriptions st) = cMaxSubscriptions \<and>
     subscriptionCount st \<le> cMaxSubscriptions \<and>
     0 \<notin> set (registered st)"

section \<open>Header, Buffer and BufferRegister\<close>

text \<open>
  \<^verbatim>\<open>DefaultSerialisation::Header\<close>: \<^verbatim>\<open>operator<\<close> compares the \<^verbatim>\<open>typeId\<close> only,
  \<^verbatim>\<open>operator==\<close> both members.
\<close>

record Header =
  typeId :: "32 word"
  dataBytes :: "32 word"

definition Header_less :: "Header \<Rightarrow> Header \<Rightarrow> bool" where
  "Header_less lhs rhs \<longleftrightarrow> typeId lhs < typeId rhs"

definition Header_eq :: "Header \<Rightarrow> Header \<Rightarrow> bool" where
  "Header_eq lhs rhs \<longleftrightarrow> typeId lhs = typeId rhs \<and> dataBytes lhs = dataBytes rhs"

text \<open>
  The constructor \<^verbatim>\<open>Header(const Data&)\<close>: the \<^verbatim>\<open>typeId\<close> is
  \<^verbatim>\<open>Broker<Data>::typeId()\<close>, or the constant 12345 when \<^verbatim>\<open>SUB0PUB_TYPEIDNAME\<close> is
  false; it is a parameter here. \<^verbatim>\<open>dataBytes\<close> is \<^verbatim>\<open>sizeof(Data)\<close>.
\<close>

definition Header_ctor :: "32 word \<Rightarrow> nat \<Rightarrow> Header" where
  "Header_ctor brokerTypeId sizeofData = \<lparr>typeId = brokerTypeId, dataBytes = of_nat sizeofData\<rparr>"

text \<open>
  A \<^verbatim>\<open>char*\<close> is null or points into a region of memory at an offset. The regions are
  the three scratch members of a reader (\<^verbatim>\<open>prefix_\<close>, \<^verbatim>\<open>header_\<close>, \<^verbatim>\<open>postfix_\<close>) and
  the \<^verbatim>\<open>buffer_\<close> member of the \<^verbatim>\<open>ForwardPublish\<close> object at a given address.
\<close>

datatype region = Mem_prefix | Mem_header | Mem_postfix | Mem_extern nat

datatype charptr = Null | Ptr region nat

record Buffer =
  buffer :: charptr
  bufferSize :: nat
  paddingSize :: nat
  publisher :: nat

text \<open>The value-initialised \<^verbatim>\<open>Buffer()\<close>, also written \<^verbatim>\<open>{ nullptr, 0U, 0U, nullptr }\<close>.\<close>

definition Buffer_null :: Buffer where
  "Buffer_null = \<lparr>buffer = Null, bufferSize = 0, paddingSize = 0, publisher = 0\<rparr>"

definition cMaxDataBufferCount :: nat where
  "cMaxDataBufferCount = 64"

text \<open>
  \<^verbatim>\<open>BufferRegister\<close>: the array \<^verbatim>\<open>registry_\<close> of \<^verbatim>\<open>cMaxDataBufferCount\<close> pairs and the
  iterator \<^verbatim>\<open>registryEnd_\<close>, kept as an index into the array.
\<close>

record BufferRegister =
  registry_' :: "(Header \<times> Buffer) list"
  registryEnd_' :: nat

definition BufferRegister_ctor :: BufferRegister where
  "BufferRegister_ctor =
     \<lparr>registry_' = replicate cMaxDataBufferCount (\<lparr>typeId = 0, dataBytes = 0\<rparr>, Buffer_null),
      registryEnd_' = 0\<rparr>"

text \<open>
  \<^verbatim>\<open>std::lower_bound\<close> as the binary search of the standard library: on the range of
  \<open>count\<close> elements from index \<open>first\<close>, halve the range while it is not empty.
\<close>

function lower_bound :: "('a \<Rightarrow> 'b \<Rightarrow> bool) \<Rightarrow> 'a list \<Rightarrow> nat \<Rightarrow> nat \<Rightarrow> 'b \<Rightarrow> nat" where
  "lower_bound cmp xs first count v =
     (if 0 < count then
        (let step = count div 2; it = first + step in
         if cmp (xs ! it) v then lower_bound cmp xs (it + 1) (count - (step + 1)) v
         else lower_bound cmp xs first step v)
      else first)"
  by pat_completeness auto
termination
  by (relation "measure (\<lambda>(cmp, xs, first, count, v). count)") auto

declare lower_bound.simps [simp del]

text \<open>
  \<^verbatim>\<open>std::move_backward(first, last, d_last)\<close> for \<open>last \<le> d_last\<close>: the elements of
  \<open>[first, last)\<close> end up in the range that ends at \<open>d_last\<close>; the positions before it
  keep what they held.
\<close>

definition move_backward :: "'a list \<Rightarrow> nat \<Rightarrow> nat \<Rightarrow> nat \<Rightarrow> 'a list" where
  "move_backward xs first iLast d_last =
     take (d_last - (iLast - first)) xs @ take (iLast - first) (drop first xs) @ drop d_last xs"

text \<open>\<^verbatim>\<open>BufferRegister::set(const Header_t&, const Buffer&)\<close>.\<close>

definition BufferRegister_set :: "BufferRegister \<Rightarrow> Header \<Rightarrow> Buffer \<Rightarrow> error + BufferRegister" where
  "BufferRegister_set r header buf =
     (if \<not> registryEnd_' r < cMaxDataBufferCount then Inl AssertionFailure
      else
        (let iInsert = lower_bound (\<lambda>lhs rhs. Header_less (fst lhs) rhs)
                         (registry_' r) 0 (registryEnd_' r) header;
             existing = (iInsert \<noteq> registryEnd_' r \<and> Header_eq (fst (registry_' r ! iInsert)) header);
             r1 = (if \<not> existing then
                     (let moved = move_backward (registry_' r) iInsert (registryEnd_' r)
                                    (registryEnd_' r + 1)
                      in \<lparr>registry_' = moved[iInsert := (header, snd (moved ! iInsert))],
                          registryEnd_' = registryEnd_' r + 1\<rparr>)
                   else r)
         in Inr (r1\<lparr>registry_' := (registry_' r1)[iInsert := (fst (registry_' r1 ! iInsert), buf)]\<rparr>)))"

text \<open>
  The template \<^verbatim>\<open>set(Data& buffer, IPublish& publisher, paddingSize)\<close>, called by the
  constructor of \<^verbatim>\<open>ForwardPublish\<close> through \<^verbatim>\<open>setDataPublisher\<close>: the landing buffer is
  the \<^verbatim>\<open>buffer_\<close> member of the object at address \<open>owner\<close>.
\<close>

definition BufferRegister_set_data ::
  "BufferRegister \<Rightarrow> 32 word \<Rightarrow> nat \<Rightarrow> nat \<Rightarrow> nat \<Rightarrow> nat \<Rightarrow> error + BufferRegister" where
  "BufferRegister_set_data r brokerTypeId sizeofData owner publisher' paddingSize' =
     BufferRegister_set r (Header_ctor brokerTypeId sizeofData)
       \<lparr>buffer = Ptr (Mem_extern owner) 0, bufferSize = sizeofData,
        paddingSize = paddingSize', publisher = publisher'\<rparr>"

text \<open>\<^verbatim>\<open>BufferRegister::find\<close>.\<close>

definition BufferRegister_find :: "BufferRegister \<Rightarrow> Header \<Rightarrow> Buffer" where
  "BufferRegister_find r header =
     (let iFind = lower_bound (\<lambda>lhs rhs. Header_less (fst lhs) (fst rhs))
                    (registry_' r) 0 (registryEnd_' r) (header, Buffer_null)
      in if iFind \<noteq> registryEnd_' r \<and> Header_eq (fst (registry_' r ! iFind)) header
         then snd (registry_' r ! iFind)
         else Buffer_null)"

text \<open>\<^verbatim>\<open>BufferRegister::validate\<close>: true always.\<close>

definition BufferRegister_validate :: "BufferRegister \<Rightarrow> Header \<Rightarrow> bool" where
  "BufferRegister_validate r header = True"

text \<open>A sequence of \<^verbatim>\<open>set\<close> calls, stopped by the first failed assertion.\<close>

fun BufferRegister_run :: "BufferRegister \<Rightarrow> (Header \<times> Buffer) list \<Rightarrow> error + BufferRegister" where
  "BufferRegister_run r [] = Inr r"
| "BufferRegister_run r ((header, buf) # calls) =
     (case BufferRegister_set r header buf of
        Inl e \<Rightarrow> Inl e
      | Inr r' \<Rightarrow> BufferRegister_run r' calls)"

text \<open>The entries of a directory: the part of the array before \<^verbatim>\<open>registryEnd_\<close>.\<close>

definition entries :: "BufferRegister \<Rightarrow> (Header \<times> Buffer) list" where
  "entries r = take (registryEnd_' r) (registry_' r)"

definition registry_inv :: "BufferRegister \<Rightarrow> bool" where
  "registry_inv r \<longleftrightarrow>
     length (registry_' r) = cMaxDataBufferCount \<and>
     registryEnd_' r \<le> cMaxDataBufferCount \<and>
     sorted (map (\<lambda>e. typeId (fst e)) (entries r))"

section \<open>Bytes on the wire\<close>

text \<open>
  An object is written and read through \<^verbatim>\<open>reinterpret_cast<char*>\<close>: its object
  representation. A \<^verbatim>\<open>uint32_t\<close> is four bytes, least significant first (the host is
  little-endian); \<^verbatim>\<open>Header\<close> is its two members in order, eight bytes.
\<close>

type_synonym byte = "8 word"

definition le32 :: "32 word \<Rightarrow> byte list" where
  "le32 w = [ucast w, ucast (drop_bit 8 w), ucast (drop_bit 16 w), ucast (drop_bit 24 w)]"

definition le32_decode :: "byte list \<Rightarrow> 32 word" where
  "le32_decode bs =
     ucast (bs ! 0) OR push_bit 8 (ucast (bs ! 1)) OR push_bit 16 (ucast (bs ! 2))
       OR push_bit 24 (ucast (bs ! 3))"

definition sizeof_Header :: nat where
  "sizeof_Header = 8"

definition Header_bytes :: "Header \<Rightarrow> byte list" where
  "Header_bytes h = le32 (typeId h) @ le32 (dataBytes h)"

definition Header_of_bytes :: "byte list \<Rightarrow> Header" where
  "Header_of_bytes bs =
     \<lparr>typeId = le32_decode (take 4 bs), dataBytes = le32_decode (take 4 (drop 4 bs))\<rparr>"

text \<open>\<^verbatim>\<open>utility::FourCC<a, b, c, d>::value\<close>.\<close>

definition FourCC :: "byte \<Rightarrow> byte \<Rightarrow> byte \<Rightarrow> byte \<Rightarrow> 32 word" where
  "FourCC a b c d =
     push_bit 8 (push_bit 8 (push_bit 8 (ucast d) OR ucast c) OR ucast b) OR ucast a"

text \<open>
  The template parameters \<^verbatim>\<open>Prefix_t\<close> and \<^verbatim>\<open>Postfix_t\<close> of the writer and the reader:
  \<open>None\<close> is \<^verbatim>\<open>void\<close>, \<open>Some bs\<close> a type whose default-constructed value has the
  object representation \<open>bs\<close>. \<^verbatim>\<open>Header_t\<close> is \<^verbatim>\<open>DefaultSerialisation::Header\<close>.
\<close>

record Protocol =
  Prefix_t :: "byte list option"
  Postfix_t :: "byte list option"

text \<open>
  \<^verbatim>\<open>DefaultSerialisation\<close>: the prefix is the magic number \<^verbatim>\<open>FourCC<'S','U','B','0'>\<close>,
  the postfix the delimiter \<^verbatim>\<open>'\n'\<close>.
\<close>

definition DefaultSerialisation :: Protocol where
  "DefaultSerialisation =
     \<lparr>Prefix_t = Some (le32 (FourCC 0x53 0x55 0x42 0x30)), Postfix_t = Some [0x0A]\<rparr>"

text \<open>\<^verbatim>\<open>sizeof\<close> of a member of type \<^verbatim>\<open>Prefix_t\<close> or \<^verbatim>\<open>Postfix_t\<close>, 0 when it is void.\<close>

definition sizeof_or_0 :: "byte list option \<Rightarrow> nat" where
  "sizeof_or_0 t = (case t of None \<Rightarrow> 0 | Some bs \<Rightarrow> length bs)"

text \<open>
  The value-initialised member of type \<^verbatim>\<open>MemberPrefix_t\<close> or \<^verbatim>\<open>MemberPostfix_t\<close>:
  a \<^verbatim>\<open>char\<close> when the parameter is void.
\<close>

definition Member_init :: "byte list option \<Rightarrow> byte list" where
  "Member_init t = (case t of None \<Rightarrow> [0] | Some bs \<Rightarrow> bs)"

section \<open>BinaryWriter\<close>

text \<open>
  \<^verbatim>\<open>OStream::write\<close> is pure virtual: the device behind a stream is a parameter, a
  function that tells, for the state of the device and the bytes offered, how many of
  them it takes and its next state. An \<^verbatim>\<open>OStream\<close> is the bytes taken so far, in
  order, and the state of its device.
\<close>

record 'd OStream =
  wire :: "byte list"
  device :: 'd

type_synonym 'd transport = "'d \<Rightarrow> byte list \<Rightarrow> nat \<times> 'd"

definition OStream_write :: "'d transport \<Rightarrow> 'd OStream \<Rightarrow> byte list \<Rightarrow> nat \<times> 'd OStream" where
  "OStream_write dev s bs =
     (let (n, d) = dev (device s) bs
      in (n, \<lparr>wire = wire s @ take n bs, device = d\<rparr>))"

text \<open>\<^verbatim>\<open>utility::write(stream, value)\<close>, and \<^verbatim>\<open>utility::write<Type_t>(stream)\<close> with its
  specialisation for \<^verbatim>\<open>void\<close>.\<close>

definition utility_write :: "'d transport \<Rightarrow> 'd OStream \<Rightarrow> byte list \<Rightarrow> bool \<times> 'd OStream" where
  "utility_write dev s v = (let (n, s') = OStream_write dev s v in (n = length v, s'))"

definition utility_write_default ::
  "'d transport \<Rightarrow> byte list option \<Rightarrow> 'd OStream \<Rightarrow> bool \<times> 'd OStream" where
  "utility_write_default dev t s =
     (case t of None \<Rightarrow> (True, s) | Some defaulted \<Rightarrow> utility_write dev s defaulted)"

text \<open>\<^verbatim>\<open>BinaryWriter::write\<close>: the four writes joined by \<^verbatim>\<open>&&\<close>.\<close>

definition BinaryWriter_write ::
  "'d transport \<Rightarrow> Protocol \<Rightarrow> 'd OStream \<Rightarrow> 32 word \<Rightarrow> byte list \<Rightarrow> bool \<times> 'd OStream" where
  "BinaryWriter_write dev P s brokerTypeId data =
     (let (ok1, s1) = utility_write_default dev (Prefix_t P) s in
      if \<not> ok1 then (False, s1) else
      let (ok2, s2) = utility_write dev s1 (Header_bytes (Header_ctor brokerTypeId (length data))) in
      if \<not> ok2 then (False, s2) else
      let (ok3, s3) = utility_write dev s2 data in
      if \<not> ok3 then (False, s3) else
      utility_write_default dev (Postfix_t P) s3)"

text \<open>
  Two devices, whose state is the room left: \<open>bounded_device\<close> takes as many of the
  bytes offered as it has room for, \<open>all_or_nothing_device\<close> takes all the bytes offered
  when it has room for them and none otherwise.
\<close>

definition bounded_device :: "nat transport" where
  "bounded_device room bs = (min (length bs) room, room - min (length bs) room)"

definition all_or_nothing_device :: "nat transport" where
  "all_or_nothing_device room bs =
     (if length bs \<le> room then (length bs, room - length bs) else (0, room))"

text \<open>The frame of a value: what a writer with room enough puts on the wire.\<close>

definition frame :: "Protocol \<Rightarrow> 32 word \<Rightarrow> byte list \<Rightarrow> byte list" where
  "frame P brokerTypeId data =
     (case Prefix_t P of None \<Rightarrow> [] | Some bs \<Rightarrow> bs) @
     Header_bytes (Header_ctor brokerTypeId (length data)) @ data @
     (case Postfix_t P of None \<Rightarrow> [] | Some bs \<Rightarrow> bs)"

section \<open>BinaryReader\<close>

datatype State = State_Prefix | State_Header | State_Data | State_Postfix | State_SyncLost

record BinaryReader =
  dataBufferRegistery_' :: BufferRegister
  currentBuffer_' :: Buffer
  state_' :: State
  prefix_' :: "byte list"
  header_' :: "byte list"
  postfix_' :: "byte list"

text \<open>The constructor value-initialises every member.\<close>

definition BinaryReader_ctor :: "Protocol \<Rightarrow> BinaryReader" where
  "BinaryReader_ctor P =
     \<lparr>dataBufferRegistery_' = BufferRegister_ctor,
      currentBuffer_' = Buffer_null,
      state_' = State_Prefix,
      prefix_' = Member_init (Prefix_t P),
      header_' = replicate sizeof_Header 0,
      postfix_' = Member_init (Postfix_t P)\<rparr>"

text \<open>
  \<^verbatim>\<open>setDataPublisher(dataBuffer, publisher)\<close>: \<open>owner\<close> is the object whose \<^verbatim>\<open>buffer_\<close>
  is the landing buffer. A \<^verbatim>\<open>ForwardPublish\<close> passes itself as both.
\<close>

definition BinaryReader_setDataPublisher ::
  "BinaryReader \<Rightarrow> 32 word \<Rightarrow> nat \<Rightarrow> nat \<Rightarrow> nat \<Rightarrow> error + BinaryReader" where
  "BinaryReader_setDataPublisher rd brokerTypeId sizeofData owner publisher' =
     (if buffer (currentBuffer_' rd) \<noteq> Null then Inl AssertionFailure
      else case BufferRegister_set_data (dataBufferRegistery_' rd) brokerTypeId sizeofData
                  owner publisher' 0 of
             Inl e \<Rightarrow> Inl e
           | Inr reg \<Rightarrow> Inr (rd\<lparr>dataBufferRegistery_' := reg\<rparr>))"

text \<open>\<^verbatim>\<open>close\<close>: \<^verbatim>\<open>currentBuffer_ = {}; state_ = {};\<close>\<close>

definition BinaryReader_close :: "BinaryReader \<Rightarrow> BinaryReader" where
  "BinaryReader_close rd = rd\<lparr>currentBuffer_' := Buffer_null, state_' := State_Prefix\<rparr>"

text \<open>\<^verbatim>\<open>findStateBuffer\<close>; the \<^verbatim>\<open>default:\<close> label stands before \<^verbatim>\<open>case State::Prefix\<close>.\<close>

definition findStateBuffer :: "Protocol \<Rightarrow> BinaryReader \<Rightarrow> State \<Rightarrow> Buffer" where
  "findStateBuffer P rd s =
     (case s of
        State_Header \<Rightarrow>
          \<lparr>buffer = Ptr Mem_header 0, bufferSize = sizeof_Header, paddingSize = 0, publisher = 0\<rparr>
      | State_Data \<Rightarrow>
          BufferRegister_find (dataBufferRegistery_' rd) (Header_of_bytes (header_' rd))
      | State_Postfix \<Rightarrow>
          \<lparr>buffer = Ptr Mem_postfix 0, bufferSize = sizeof_or_0 (Postfix_t P), paddingSize = 0,
           publisher = publisher (currentBuffer_' rd)\<rparr>
      | _ \<Rightarrow>
          \<lparr>buffer = Ptr Mem_prefix 0, bufferSize = sizeof_or_0 (Prefix_t P), paddingSize = 0,
           publisher = 0\<rparr>)"

text \<open>
  \<^verbatim>\<open>getStateStatus\<close>; \<^verbatim>\<open>postfix_ == Postfix_t()\<close> compares the member with the
  default-constructed value. (With a void \<^verbatim>\<open>Postfix_t\<close> the state \<^verbatim>\<open>Postfix\<close> is never
  entered.)
\<close>

definition getStateStatus :: "Protocol \<Rightarrow> BinaryReader \<Rightarrow> State \<Rightarrow> bool" where
  "getStateStatus P rd s =
     (case s of
        State_Header \<Rightarrow>
          BufferRegister_validate (dataBufferRegistery_' rd) (Header_of_bytes (header_' rd))
      | State_Data \<Rightarrow> True
      | State_Postfix \<Rightarrow> postfix_' rd = Member_init (Postfix_t P)
      | _ \<Rightarrow> True)"

text \<open>
  The failure of a check: \<^verbatim>\<open>throw std::runtime_error(failureMessage)\<close> under
  \<^verbatim>\<open>__cpp_exceptions\<close>, \<^verbatim>\<open>assert((void*)0 == failureMessage)\<close> otherwise. The message is
  never null, so neither branch falls through.
\<close>

definition failure :: "bool \<Rightarrow> string \<Rightarrow> error" where
  "failure cpp_exceptions failureMessage =
     (if cpp_exceptions then RuntimeError failureMessage else AssertionFailure)"

definition checkStatusOfState :: "bool \<Rightarrow> Protocol \<Rightarrow> BinaryReader \<Rightarrow> State \<Rightarrow> error + bool" where
  "checkStatusOfState cpp_exceptions P rd currentState =
     (if getStateStatus P rd currentState then Inr True
      else Inl (failure cpp_exceptions
             (case currentState of
                State_Header \<Rightarrow>
                  ''Binary-Header mismatch - stream corruption or incompatible data-stream''
              | State_Postfix \<Rightarrow>
                  ''Binary-Postfix mismatch - stream corruption or incompatible data-stream''
              | _ \<Rightarrow> ''Sync-Lost - TODO Details'')))"

text \<open>
  \<^verbatim>\<open>IPublish::publish()\<close> of the object at address \<open>p\<close> is recorded as the pair of \<open>p\<close>
  and the contents of its \<^verbatim>\<open>buffer_\<close> at the call: the value that
  \<^verbatim>\<open>ForwardPublish::publish\<close> hands to \<^verbatim>\<open>Publish<Data>::publish\<close>.

  \<^verbatim>\<open>nextState\<close> returns the next state and the calls it made; the \<^verbatim>\<open>default:\<close> label
  stands before \<^verbatim>\<open>case State::Prefix\<close>.
\<close>

function nextState ::
  "Protocol \<Rightarrow> Buffer \<Rightarrow> (nat \<Rightarrow> byte list) \<Rightarrow> State \<Rightarrow> (error + State) \<times> (nat \<times> byte list) list"
where
  "nextState P cur mem State_Prefix = (Inr State_Header, [])"
| "nextState P cur mem State_SyncLost = (Inr State_Header, [])"
| "nextState P cur mem State_Header = (Inr State_Data, [])"
| "nextState P cur mem State_Data =
     (if Postfix_t P \<noteq> None then (Inr State_Postfix, []) else nextState P cur mem State_Postfix)"
| "nextState P cur mem State_Postfix =
     (if publisher cur = 0 then (Inl AssertionFailure, [])
      else
        (case (if Prefix_t P \<noteq> None then (Inr State_Prefix, [])
               else nextState P cur mem State_Prefix) of
           (next, calls) \<Rightarrow> (next, (publisher cur, mem (publisher cur)) # calls)))"
  by pat_completeness auto
termination
  by (relation "measure (\<lambda>(P, cur, mem, s).
        case s of State_Data \<Rightarrow> 2 | State_Postfix \<Rightarrow> 1 | _ \<Rightarrow> 0)") auto

text \<open>
  What a call of \<^verbatim>\<open>read\<close> works on: the reader, the bytes the stream has available, the
  \<^verbatim>\<open>buffer_\<close> members of the registered \<^verbatim>\<open>ForwardPublish\<close> objects by address, and the
  record of the \<^verbatim>\<open>publish()\<close> calls made so far.
\<close>

record Conf =
  reader :: BinaryReader
  stream :: "byte list"
  heap :: "nat \<Rightarrow> byte list"
  published :: "(nat \<times> byte list) list"

text \<open>\<^verbatim>\<open>stateComplete\<close>.\<close>

definition stateComplete :: "bool \<Rightarrow> Protocol \<Rightarrow> Conf \<Rightarrow> (error + bool) \<times> Conf" where
  "stateComplete cpp_exceptions P c =
     (case checkStatusOfState cpp_exceptions P (reader c) (state_' (reader c)) of
        Inl e \<Rightarrow> (Inl e, c)
      | Inr False \<Rightarrow> (Inr False, c\<lparr>reader := (reader c)\<lparr>state_' := State_SyncLost\<rparr>\<rparr>)
      | Inr True \<Rightarrow>
          (case nextState P (currentBuffer_' (reader c)) (heap c) (state_' (reader c)) of
             (Inl e, calls) \<Rightarrow> (Inl e, c\<lparr>published := published c @ calls\<rparr>)
           | (Inr s, calls) \<Rightarrow>
               (let rd1 = (reader c)\<lparr>state_' := s\<rparr>;
                    rd2 = rd1\<lparr>currentBuffer_' := findStateBuffer P rd1 s\<rparr>;
                    c2 = c\<lparr>reader := rd2, published := published c @ calls\<rparr>
                in if buffer (currentBuffer_' rd2) = Null
                   then (Inl (failure cpp_exceptions
                           (if s = State_Data
                            then ''Sub0Pub - Data buffer is null, potential payload size mismatch or unrecognised Id''
                            else ''Sub0Pub - some logic is wrong!'')), c2)
                   else (Inr True, c2))))"

text \<open>
  Memory: \<open>poke\<close> overwrites a region from an offset on; \<open>store\<close> writes through a
  \<^verbatim>\<open>char*\<close>. \<^verbatim>\<open>buffer += n\<close> is \<open>ptr_add\<close>.
\<close>

definition poke :: "byte list \<Rightarrow> nat \<Rightarrow> byte list \<Rightarrow> byte list" where
  "poke m off bs = take off m @ bs @ drop (off + length bs) m"

fun store :: "Conf \<Rightarrow> charptr \<Rightarrow> byte list \<Rightarrow> Conf" where
  "store c Null bs = c"
| "store c (Ptr Mem_prefix off) bs =
     c\<lparr>reader := (reader c)\<lparr>prefix_' := poke (prefix_' (reader c)) off bs\<rparr>\<rparr>"
| "store c (Ptr Mem_header off) bs =
     c\<lparr>reader := (reader c)\<lparr>header_' := poke (header_' (reader c)) off bs\<rparr>\<rparr>"
| "store c (Ptr Mem_postfix off) bs =
     c\<lparr>reader := (reader c)\<lparr>postfix_' := poke (postfix_' (reader c)) off bs\<rparr>\<rparr>"
| "store c (Ptr (Mem_extern k) off) bs = c\<lparr>heap := (heap c)(k := poke (heap c k) off bs)\<rparr>"

fun ptr_add :: "charptr \<Rightarrow> nat \<Rightarrow> charptr" where
  "ptr_add Null n = Null"
| "ptr_add (Ptr r off) n = Ptr r (off + n)"

text \<open>
  The first block of \<^verbatim>\<open>readBuffer\<close>: \<^verbatim>\<open>stream.read(buffer, bufferSize)\<close> delivers what
  the stream has, at most \<^verbatim>\<open>bufferSize\<close> bytes. The result says whether the function
  returns false here. Writing bytes through a null pointer is the error \<open>NullWrite\<close>.
\<close>

definition read_block :: "Conf \<Rightarrow> error + Conf \<times> bool" where
  "read_block c =
     (let cur = currentBuffer_' (reader c);
          readCount = min (bufferSize cur) (length (stream c))
      in if 0 < readCount \<and> buffer cur = Null then Inl NullWrite
         else
           (let c1 = store c (buffer cur) (take readCount (stream c));
                c2 = c1\<lparr>stream := drop readCount (stream c),
                        reader := (reader c1)\<lparr>currentBuffer_' :=
                          cur\<lparr>buffer := ptr_add (buffer cur) readCount,
                              bufferSize := bufferSize cur - readCount\<rparr>\<rparr>\<rparr>
            in Inr (c2, 0 < bufferSize (currentBuffer_' (reader c2)))))"

text \<open>The second block: \<^verbatim>\<open>stream.ignore(paddingSize)\<close>.\<close>

definition ignore_block :: "Conf \<Rightarrow> Conf \<times> bool" where
  "ignore_block c =
     (let cur = currentBuffer_' (reader c);
          ignoreCount = min (paddingSize cur) (length (stream c));
          c2 = c\<lparr>stream := drop ignoreCount (stream c),
                  reader := (reader c)\<lparr>currentBuffer_' :=
                    cur\<lparr>paddingSize := paddingSize cur - ignoreCount\<rparr>\<rparr>\<rparr>
      in (c2, 0 < paddingSize (currentBuffer_' (reader c2))))"

text \<open>\<^verbatim>\<open>readBuffer\<close>.\<close>

definition readBuffer :: "bool \<Rightarrow> Protocol \<Rightarrow> Conf \<Rightarrow> (error + bool) \<times> Conf" where
  "readBuffer cpp_exceptions P c =
     (case (if 0 < bufferSize (currentBuffer_' (reader c)) then read_block c else Inr (c, False)) of
        Inl e \<Rightarrow> (Inl e, c)
      | Inr (c1, True) \<Rightarrow> (Inr False, c1)
      | Inr (c1, False) \<Rightarrow>
          (case (if 0 < paddingSize (currentBuffer_' (reader c1)) then ignore_block c1
                 else (c1, False)) of
             (c2, True) \<Rightarrow> (Inr False, c2)
           | (c2, False) \<Rightarrow> stateComplete cpp_exceptions P c2))"

text \<open>
  \<^verbatim>\<open>read\<close> is the loop \<^verbatim>\<open>while (readBuffer(stream)) { if (state_ == State::Header) return true; }\<close>.
  It ends: every turn that does not return moves the state one step nearer to
  \<^verbatim>\<open>Header\<close>, which \<open>rank\<close> measures.
\<close>

fun rank :: "State \<Rightarrow> nat" where
  "rank State_Header = 3"
| "rank State_Data = 2"
| "rank State_Postfix = 1"
| "rank State_Prefix = 0"
| "rank State_SyncLost = 0"

lemma nextState_rank:
  "nextState P cur mem s = (Inr s', calls) \<Longrightarrow> s' = State_Header \<or> rank s' < rank s"
  by (cases s) (auto split: if_splits prod.splits)

lemma store_state [simp]: "state_' (reader (store c p bs)) = state_' (reader c)"
  by (cases "(c, p, bs)" rule: store.cases) auto

lemma read_block_state:
  "read_block c = Inr (c', b) \<Longrightarrow> state_' (reader c') = state_' (reader c)"
  by (auto simp: read_block_def Let_def split: if_splits)

lemma ignore_block_state:
  "ignore_block c = (c', b) \<Longrightarrow> state_' (reader c') = state_' (reader c)"
  by (auto simp: ignore_block_def Let_def)

lemma stateComplete_rank:
  assumes "stateComplete ex P c = (Inr True, c')"
  shows "state_' (reader c') = State_Header \<or> rank (state_' (reader c')) < rank (state_' (reader c))"
  using assms nextState_rank[of P "currentBuffer_' (reader c)" "heap c" "state_' (reader c)"]
  by (auto simp: stateComplete_def Let_def split: sum.splits bool.splits prod.splits if_splits)

lemma readBuffer_rank:
  assumes "readBuffer ex P c = (Inr True, c')"
  shows "state_' (reader c') = State_Header \<or> rank (state_' (reader c')) < rank (state_' (reader c))"
proof -
  from assms obtain c1 c2 where
    1: "(if 0 < bufferSize (currentBuffer_' (reader c)) then read_block c else Inr (c, False)) = Inr (c1, False)"
    and 2: "(if 0 < paddingSize (currentBuffer_' (reader c1)) then ignore_block c1 else (c1, False)) = (c2, False)"
    and 3: "stateComplete ex P c2 = (Inr True, c')"
    by (auto simp: readBuffer_def split: sum.splits prod.splits bool.splits)
  from 1 have "state_' (reader c1) = state_' (reader c)"
    by (auto split: if_splits dest: read_block_state)
  moreover from 2 have "state_' (reader c2) = state_' (reader c1)"
    by (auto split: if_splits dest: ignore_block_state)
  ultimately show ?thesis using stateComplete_rank[OF 3] by simp
qed

function read :: "bool \<Rightarrow> Protocol \<Rightarrow> Conf \<Rightarrow> (error + bool) \<times> Conf" where
  "read cpp_exceptions P c =
     (case readBuffer cpp_exceptions P c of
        (Inr True, c') \<Rightarrow>
          if state_' (reader c') = State_Header then (Inr True, c') else read cpp_exceptions P c'
      | (Inr False, c') \<Rightarrow> (Inr False, c')
      | (Inl e, c') \<Rightarrow> (Inl e, c'))"
  by pat_completeness auto
termination
  apply (relation "measure (\<lambda>(ex, P, c). rank (state_' (reader c)))")
   apply simp
  subgoal for cpp_exceptions P c x1 x2 x2a
    using readBuffer_rank[of cpp_exceptions P c x2] by simp
  done

declare read.simps [simp del]



lemma store_simps [simp]:
  "stream (store c p bs) = stream c"
  "published (store c p bs) = published c"
  "currentBuffer_' (reader (store c p bs)) = currentBuffer_' (reader c)"
  "dataBufferRegistery_' (reader (store c p bs)) = dataBufferRegistery_' (reader c)"
  by (cases "(c, p, bs)" rule: store.cases; simp)+

lemma stateComplete_stream:
  "stateComplete ex P c = (r, c') \<Longrightarrow> stream c' = stream c"
  by (auto simp: stateComplete_def Let_def split: sum.splits bool.splits prod.splits if_splits)

lemma stateComplete_True:
  assumes "stateComplete ex P c = (Inr True, c')"
  shows "currentBuffer_' (reader c') = findStateBuffer P (reader c') (state_' (reader c')) \<and>
         buffer (currentBuffer_' (reader c')) \<noteq> Null"
  using assms
  apply (auto simp: stateComplete_def Let_def split: sum.splits bool.splits prod.splits if_splits)
  apply (auto simp: findStateBuffer_def split: State.splits)
  done

lemma readBuffer_True:
  assumes "readBuffer ex P c = (Inr True, c')"
  shows "length (stream c') + bufferSize (currentBuffer_' (reader c)) +
           paddingSize (currentBuffer_' (reader c)) = length (stream c) \<and>
         currentBuffer_' (reader c') = findStateBuffer P (reader c') (state_' (reader c')) \<and>
         buffer (currentBuffer_' (reader c')) \<noteq> Null"
proof -
  from assms obtain c1 c2 where
    1: "(if 0 < bufferSize (currentBuffer_' (reader c)) then read_block c else Inr (c, False)) = Inr (c1, False)"
    and 2: "(if 0 < paddingSize (currentBuffer_' (reader c1)) then ignore_block c1 else (c1, False)) = (c2, False)"
    and 3: "stateComplete ex P c2 = (Inr True, c')"
    by (auto simp: readBuffer_def split: sum.splits prod.splits bool.splits)
  from 1 have a: "length (stream c1) + bufferSize (currentBuffer_' (reader c)) = length (stream c) \<and>
       paddingSize (currentBuffer_' (reader c1)) = paddingSize (currentBuffer_' (reader c))"
    by (auto simp: read_block_def Let_def min_def split: if_splits)
  from 2 have b: "length (stream c2) + paddingSize (currentBuffer_' (reader c1)) = length (stream c1)"
    by (auto simp: ignore_block_def Let_def min_def split: if_splits)
  from a b stateComplete_stream[OF 3] stateComplete_True[OF 3] show ?thesis by auto
qed

lemma read_True:
  assumes "read ex P c = (Inr True, c')"
  shows "state_' (reader c') = State_Header \<and>
         currentBuffer_' (reader c') = findStateBuffer P (reader c') State_Header \<and>
         length (stream c') \<le> length (stream c) \<and>
         (0 < bufferSize (currentBuffer_' (reader c)) \<longrightarrow> length (stream c') < length (stream c))"
  using assms
proof (induction ex P c rule: read.induct)
  case (1 ex P c)
  from "1.prems" obtain c1 where rb: "readBuffer ex P c = (Inr True, c1)"
    and rest: "(if state_' (reader c1) = State_Header then (Inr True, c1) else read ex P c1) = (Inr True, c')"
    by (subst (asm) read.simps) (auto split: prod.splits sum.splits bool.splits)
  note rbT = readBuffer_True[OF rb]
  show ?case
  proof (cases "state_' (reader c1) = State_Header")
    case True
    with rest have "c' = c1" by simp
    with True rbT show ?thesis by auto
  next
    case False
    with rest have "read ex P c1 = (Inr True, c')" by simp
    from "1.IH"[OF rb[symmetric] refl _ False this] rbT show ?thesis by auto
  qed
qed

text \<open>
  The caller's side, for statements about frames that arrive in pieces: \<open>offer\<close> makes
  more bytes available on the stream, \<open>drain\<close> calls \<^verbatim>\<open>read\<close> again for as long as it
  returns true, and \<open>feed\<close> offers the chunks one after the other, draining after each;
  after an error the chunks not yet offered stay on the stream. \<open>drain\<close> ends: a call
  that returns true leaves the eight-byte header buffer current, so the next call takes
  bytes off the stream or does not return true.
\<close>

definition offer :: "Conf \<Rightarrow> byte list \<Rightarrow> Conf" where
  "offer c bs = c\<lparr>stream := stream c @ bs\<rparr>"

function drain :: "bool \<Rightarrow> Protocol \<Rightarrow> Conf \<Rightarrow> (error + bool) \<times> Conf" where
  "drain cpp_exceptions P c =
     (case read cpp_exceptions P c of
        (Inr True, c') \<Rightarrow> drain cpp_exceptions P c'
      | (Inr False, c') \<Rightarrow> (Inr False, c')
      | (Inl e, c') \<Rightarrow> (Inl e, c'))"
  by pat_completeness auto
termination
  apply (relation "measure (\<lambda>(ex, P, c). 2 * length (stream c) +
           (if 0 < bufferSize (currentBuffer_' (reader c)) then 0 else 1))")
   apply simp
  subgoal for cpp_exceptions P c x1 x2 x2a
    using read_True[of cpp_exceptions P c x2]
    by (auto simp: findStateBuffer_def sizeof_Header_def)
  done

declare drain.simps [simp del]

fun feed :: "bool \<Rightarrow> Protocol \<Rightarrow> Conf \<Rightarrow> byte list list \<Rightarrow> (error + bool) \<times> Conf" where
  "feed cpp_exceptions P c [] = (Inr False, c)"
| "feed cpp_exceptions P c (chunk # chunks) =
     (case drain cpp_exceptions P (offer c chunk) of
        (Inl e, c') \<Rightarrow> (Inl e, offer c' (concat chunks))
      | (_, c') \<Rightarrow> feed cpp_exceptions P c' chunks)"



section \<open>Views used in the proofs, and examples\<close>

text \<open>
  The directory seen as the list of its entries: \<open>lb\<close> is the position
  \<^verbatim>\<open>std::lower_bound\<close> finds in a list sorted by \<^verbatim>\<open>typeId\<close>, \<open>upsert\<close> what
  \<^verbatim>\<open>set\<close> does to the entries, \<open>strict\<close> that the \<^verbatim>\<open>typeId\<close>s increase strictly, and
  \<open>compatible\<close> that headers with one \<^verbatim>\<open>typeId\<close> have one size.
\<close>

definition lb :: "(Header \<times> Buffer) list \<Rightarrow> Header \<Rightarrow> nat" where
  "lb es h = length (takeWhile (\<lambda>e. typeId (fst e) < typeId h) es)"

definition upsert :: "(Header \<times> Buffer) list \<Rightarrow> Header \<Rightarrow> Buffer \<Rightarrow> (Header \<times> Buffer) list" where
  "upsert es h b =
     (if lb es h < length es \<and> fst (es ! lb es h) = h
      then es[lb es h := (h, b)]
      else take (lb es h) es @ (h, b) # drop (lb es h) es)"


definition strict :: "(Header \<times> Buffer) list \<Rightarrow> bool" where
  "strict es \<longleftrightarrow> sorted_wrt (\<lambda>a b. typeId (fst a) < typeId (fst b)) es"


definition compatible :: "Header set \<Rightarrow> bool" where
  "compatible H \<longleftrightarrow> (\<forall>h \<in> H. \<forall>h' \<in> H. typeId h = typeId h' \<longrightarrow> dataBytes h = dataBytes h')"


text \<open>The first entry of a directory that has a given \<^verbatim>\<open>typeId\<close>, if there is one.\<close>

definition first_of_typeId :: "(Header \<times> Buffer) list \<Rightarrow> 32 word \<Rightarrow> (Header \<times> Buffer) option" where
  "first_of_typeId es t = List.find (\<lambda>e. typeId (fst e) = t) es"

text \<open>Example directories: two types that share a \<^verbatim>\<open>typeId\<close>, and three types of
  different \<^verbatim>\<open>typeId\<close> registered out of order, the first of them twice.\<close>

definition example_buffer :: "nat \<Rightarrow> nat \<Rightarrow> Buffer" where
  "example_buffer owner n = \<lparr>buffer = Ptr (Mem_extern owner) 0, bufferSize = n, paddingSize = 0, publisher = owner\<rparr>"

definition example_collision :: "(Header \<times> Buffer) list" where
  "example_collision =
     [(\<lparr>typeId = 5, dataBytes = 4\<rparr>, example_buffer 1 4),
      (\<lparr>typeId = 5, dataBytes = 8\<rparr>, example_buffer 2 8)]"

definition example_three :: "(Header \<times> Buffer) list" where
  "example_three =
     [(\<lparr>typeId = 200, dataBytes = 4\<rparr>, example_buffer 2 4),
      (\<lparr>typeId = 100, dataBytes = 4\<rparr>, example_buffer 1 4),
      (\<lparr>typeId = 300, dataBytes = 8\<rparr>, example_buffer 3 8),
      (\<lparr>typeId = 100, dataBytes = 4\<rparr>, example_buffer 4 4)]"

text \<open>
  Views of the writer: \<open>components\<close> is the byte strings that \<^verbatim>\<open>write\<close> offers to the
  stream, in order (a \<^verbatim>\<open>void\<close> prefix or postfix offers nothing); \<open>write_each\<close> is the
  stream after each of a list of byte strings has been offered to it in turn;
  \<open>taken_whole\<close> says that the stream takes all of a byte string offered to it; and
  \<open>write_until_short\<close> offers byte strings in turn up to the first that is not taken
  whole.
\<close>

definition components :: "Protocol \<Rightarrow> 32 word \<Rightarrow> byte list \<Rightarrow> byte list list" where
  "components P brokerTypeId data =
     (case Prefix_t P of None \<Rightarrow> [] | Some bs \<Rightarrow> [bs]) @
     [Header_bytes (Header_ctor brokerTypeId (length data)), data] @
     (case Postfix_t P of None \<Rightarrow> [] | Some bs \<Rightarrow> [bs])"

definition write_each :: "'d transport \<Rightarrow> 'd OStream \<Rightarrow> byte list list \<Rightarrow> 'd OStream" where
  "write_each dev s vs = foldl (\<lambda>s' v. snd (OStream_write dev s' v)) s vs"

definition taken_whole :: "'d transport \<Rightarrow> 'd OStream \<Rightarrow> byte list \<Rightarrow> bool" where
  "taken_whole dev s v \<longleftrightarrow> fst (OStream_write dev s v) = length v"

fun write_until_short :: "'d transport \<Rightarrow> 'd OStream \<Rightarrow> byte list list \<Rightarrow> bool \<times> 'd OStream" where
  "write_until_short dev s [] = (True, s)"
| "write_until_short dev s (v # vs) =
     (if taken_whole dev s v then write_until_short dev (snd (OStream_write dev s v)) vs
      else (False, snd (OStream_write dev s v)))"

text \<open>
  Example readers: a reader of a protocol after the registration of one
  \<^verbatim>\<open>ForwardPublish\<close> object at address 1 for a type of \<^verbatim>\<open>typeId\<close> 100 and four bytes,
  with nothing on the stream yet; \<open>no_prefix\<close> is the default protocol without its
  prefix. \<open>summary\<close> is what a caller can tell of a call: the result, the state, the
  bytes left on the stream and the \<^verbatim>\<open>publish()\<close> calls made.
\<close>

definition example_reader :: "Protocol \<Rightarrow> BinaryReader" where
  "example_reader P =
     (case BinaryReader_setDataPublisher (BinaryReader_ctor P) 100 4 1 1 of
        Inr rd \<Rightarrow> rd | Inl e \<Rightarrow> BinaryReader_ctor P)"

definition example_conf :: "Protocol \<Rightarrow> Conf" where
  "example_conf P =
     \<lparr>reader = example_reader P, stream = [], heap = (\<lambda>owner. replicate 4 0), published = []\<rparr>"

definition no_prefix :: Protocol where
  "no_prefix = \<lparr>Prefix_t = None, Postfix_t = Some [0x0A]\<rparr>"

definition summary ::
  "(error + bool) \<times> Conf \<Rightarrow> (error + bool) \<times> State \<times> byte list \<times> (nat \<times> byte list) list" where
  "summary rc = (fst rc, state_' (reader (snd rc)), stream (snd rc), published (snd rc))"

definition then_read :: "bool \<Rightarrow> Protocol \<Rightarrow> (error + bool) \<times> Conf \<Rightarrow> (error + bool) \<times> Conf" where
  "then_read cpp_exceptions P rc = read cpp_exceptions P (snd rc)"

text \<open>
  Views of \<^verbatim>\<open>readBuffer\<close> used in the proofs: \<open>after_read c k\<close> is the configuration
  after \<^verbatim>\<open>stream.read\<close> has delivered \<open>k\<close> bytes into the current buffer, \<open>after_ignore c j\<close>
  the one after \<^verbatim>\<open>stream.ignore\<close> has skipped \<open>j\<close> bytes, and \<open>pad_then_complete\<close> is the
  second half of \<^verbatim>\<open>readBuffer\<close>, from the padding on.
\<close>

definition after_read :: "Conf \<Rightarrow> nat \<Rightarrow> Conf" where
  "after_read c k =
     (let cur = currentBuffer_' (reader c);
          c1 = store c (buffer cur) (take k (stream c))
      in c1\<lparr>stream := drop k (stream c),
             reader := (reader c1)\<lparr>currentBuffer_' :=
               cur\<lparr>buffer := ptr_add (buffer cur) k, bufferSize := bufferSize cur - k\<rparr>\<rparr>\<rparr>)"

definition after_ignore :: "Conf \<Rightarrow> nat \<Rightarrow> Conf" where
  "after_ignore c j =
     c\<lparr>stream := drop j (stream c),
       reader := (reader c)\<lparr>currentBuffer_' :=
         (currentBuffer_' (reader c))\<lparr>paddingSize := paddingSize (currentBuffer_' (reader c)) - j\<rparr>\<rparr>\<rparr>"

definition pad_then_complete :: "bool \<Rightarrow> Protocol \<Rightarrow> Conf \<Rightarrow> (error + bool) \<times> Conf" where
  "pad_then_complete ex P c1 =
     (case (if 0 < paddingSize (currentBuffer_' (reader c1)) then ignore_block c1
            else (c1, False)) of
        (c2, True) \<Rightarrow> (Inr False, c2)
      | (c2, False) \<Rightarrow> stateComplete ex P c2)"

text \<open>
  The buffer that \<^verbatim>\<open>findStateBuffer\<close> returns for the \<^verbatim>\<open>Header\<close> state, and the message
  of \<^verbatim>\<open>checkStatusOfState\<close> for a postfix that differs from \<^verbatim>\<open>Postfix_t()\<close>.
\<close>

definition header_buffer :: Buffer where
  "header_buffer = \<lparr>buffer = Ptr Mem_header 0, bufferSize = sizeof_Header, paddingSize = 0, publisher = 0\<rparr>"

definition postfix_mismatch :: string where
  "postfix_mismatch = ''Binary-Postfix mismatch - stream corruption or incompatible data-stream''"

text \<open>
  A reader awaits a frame when the stream is empty and the reader is at the start of
  the \<^verbatim>\<open>Header\<close> state, or at the start of the \<^verbatim>\<open>Prefix\<close> state of a protocol that
  has a prefix, with the buffer of that state untouched. \<open>lead_bytes\<close> is the number of
  bytes such a reader takes before the header: the size of the prefix in the
  \<^verbatim>\<open>Prefix\<close> state, none in the \<^verbatim>\<open>Header\<close> state.
\<close>

definition awaiting :: "Protocol \<Rightarrow> Conf \<Rightarrow> bool" where
  "awaiting P c \<longleftrightarrow>
     stream c = [] \<and>
     (state_' (reader c) = State_Header \<or>
      state_' (reader c) = State_Prefix \<and> 0 < sizeof_or_0 (Prefix_t P)) \<and>
     currentBuffer_' (reader c) = findStateBuffer P (reader c) (state_' (reader c)) \<and>
     length (postfix_' (reader c)) = sizeof_or_0 (Postfix_t P)"

definition lead_bytes :: "Protocol \<Rightarrow> Conf \<Rightarrow> nat" where
  "lead_bytes P c = (if state_' (reader c) = State_Prefix then sizeof_or_0 (Prefix_t P) else 0)"

text \<open>
  The example reader of the default protocol after its first \<^verbatim>\<open>read\<close> and one frame
  without prefix: it awaits the next frame in the \<^verbatim>\<open>Prefix\<close> state.
\<close>

definition example_awaiting :: Conf where
  "example_awaiting =
     snd (feed True DefaultSerialisation
            (snd (read True DefaultSerialisation (example_conf DefaultSerialisation)))
            [Header_bytes (Header_ctor 100 4) @ [0xC3, 0xF5, 0x48, 0x40] @ [0x0A]])"

section \<open>Properties of the Broker\<close>

lemma registered_ctor:
  assumes "Broker_inv st" "Broker_ctor st s = Inr st'"
  shows "registered st' = registered st @ [s] \<and> Broker_inv st'"
  using assms
  by (auto simp: Broker_inv_def Broker_ctor_def onSubscription_def registered_def
      take_Suc_conv_app_nth split: if_splits dest: in_set_takeD)

lemma registered_unsubscribe:
  assumes "Broker_inv st" "Broker_unsubscribe st s = Inr st'"
  shows "registered st' = filter (\<lambda>p. p \<noteq> s) (registered st) \<and> Broker_inv st'"
  using assms
  by (auto simp: Broker_inv_def Broker_unsubscribe_def std_remove_def registered_def Let_def
       split: if_splits prod.splits)

lemma publish_from_eq:
  assumes "Broker_inv st" 
  shows "publish_from filt st v i received =
     Inr (received @ map (\<lambda>s. (s, v)) (filter (\<lambda>s. filt s v) (drop i (registered st))))"
  using assms
proof (induction filt st v i received rule: publish_from.induct)
  case (1 filt st data i received)
  show ?case
  proof (cases "i < subscriptionCount st")
    case True
    with "1.prems" have len: "i < length (registered st)"
      by (simp add: Broker_inv_def registered_def)
    have nth: "subscriptions st ! i = registered st ! i"
      using True by (simp add: registered_def)
    have nz: "registered st ! i \<noteq> 0"
      using "1.prems" len by (metis Broker_inv_def nth_mem)
    have dr: "drop i (registered st) = registered st ! i # drop (Suc i) (registered st)"
      using len by (simp add: Cons_nth_drop_Suc)
    show ?thesis
      using True nz nth "1.IH"[OF True refl _ "1.prems"] 
      by (subst publish_from.simps) (auto simp: dr Let_def split: if_splits)
  next
    case False
    then have "drop i (registered st) = []"
      by (simp add: registered_def)
    with False show ?thesis
      by (subst publish_from.simps) simp
  qed
qed

lemma Broker_inv_State_ctor: "Broker_inv State_ctor \<and> registered State_ctor = []"
  by (simp add: Broker_inv_def State_ctor_def registered_def)

lemma Broker_run_registered:
  assumes "Broker_inv st" "Broker_run st calls = Inr st'"
  shows "registered st' = subscribers_after (registered st) calls \<and> Broker_inv st'"
  using assms
proof (induction st calls rule: Broker_run.induct)
  case (1 st)
  then show ?case by simp
next
  case (2 st s calls)
  then obtain st1 where c: "Broker_ctor st s = Inr st1" and r: "Broker_run st1 calls = Inr st'"
    by (auto split: sum.splits)
  from registered_ctor[OF "2.prems"(1) c] "2.IH"[OF c _ r] show ?case by simp
next
  case (3 st s calls)
  then obtain st1 where c: "Broker_unsubscribe st s = Inr st1" and r: "Broker_run st1 calls = Inr st'"
    by (auto split: sum.splits)
  from registered_unsubscribe[OF "3.prems"(1) c] "3.IH"[OF c _ r] show ?case by simp
qed

lemma count_list_map_pair:
  "count_list (map (\<lambda>s. (s, v)) xs) (s, v) = count_list xs s"
  by (induction xs) auto

lemma count_list_filter:
  "count_list (filter P xs) s = (if P s then count_list xs s else 0)"
  by (induction xs) auto

lemma distinct_count_list: "distinct xs \<Longrightarrow> s \<in> set xs \<Longrightarrow> count_list xs s = 1"
  by (induction xs) (auto simp: count_list_0_iff)

text \<open>
  Claim C2. After any history of registrations and unregistrations that passes its
  assertions, one \<^verbatim>\<open>publish\<close> of \<open>v\<close> visits the registered subscribers in the order
  of their registration and calls \<^verbatim>\<open>receive(v)\<close> on exactly those whose filter accepts
  \<open>v\<close>: a subscriber receives as many calls as it has registrations if its filter accepts
  (one, when no subscriber is registered twice) and none if it rejects.
\<close>

theorem publish_fan_out:
  assumes "Broker_run State_ctor calls = Inr st"
  shows "Broker_publish filt st v =
           Inr (map (\<lambda>s. (s, v)) (filter (\<lambda>s. filt s v) (subscribers_after [] calls))) \<and>
         (\<forall>received. Broker_publish filt st v = Inr received \<longrightarrow>
            (\<forall>s. count_list received (s, v) =
                 (if filt s v then count_list (subscribers_after [] calls) s else 0)) \<and>
            (distinct (subscribers_after [] calls) \<longrightarrow>
               (\<forall>s \<in> set (subscribers_after [] calls).
                  count_list received (s, v) = (if filt s v then 1 else 0))))"
proof -
  from Broker_run_registered[OF _ assms] Broker_inv_State_ctor
  have reg: "registered st = subscribers_after [] calls" and inv: "Broker_inv st"
    by simp_all
  have eq: "Broker_publish filt st v =
           Inr (map (\<lambda>s. (s, v)) (filter (\<lambda>s. filt s v) (subscribers_after [] calls)))"
    using publish_from_eq[OF inv, of filt v 0 "[]"] by (simp add: Broker_publish_def reg)
  show ?thesis
    unfolding eq
    by (auto simp: count_list_map_pair count_list_filter distinct_count_list)
qed

lemma subscribers_after_notin:
  "s \<notin> set ss \<Longrightarrow> Subscribe s \<notin> set calls \<Longrightarrow> s \<notin> set (subscribers_after ss calls)"
  by (induction ss calls rule: subscribers_after.induct) auto

lemma length_filter_neq:
  "length (filter (\<lambda>p. p \<noteq> s) xs) + count_list xs s = length xs"
  by (induction xs) auto

lemma count_list_one_filter_length:
  "count_list xs s = 1 \<Longrightarrow> length (filter (\<lambda>p. p \<noteq> s) xs) + 1 = length xs"
  using length_filter_neq[of s xs] by simp

lemma unsubscribe_result:
  assumes "Broker_inv st"
  shows "Broker_unsubscribe st s =
     (if count_list (registered st) s = 1
      then Inr (st\<lparr>subscriptions := filter (\<lambda>p. p \<noteq> s) (registered st)
                       @ drop (length (registered st) - 1) (subscriptions st),
                   subscriptionCount := subscriptionCount st - 1\<rparr>)
      else Inl AssertionFailure)"
proof -
  have len: "length (registered st) = subscriptionCount st"
    using assms by (simp add: Broker_inv_def registered_def)
  from length_filter_neq[of s "registered st"] len
  have "subscriptionCount st - length (filter (\<lambda>p. p \<noteq> s) (registered st)) = count_list (registered st) s"
       "count_list (registered st) s = 1 \<Longrightarrow> length (filter (\<lambda>p. p \<noteq> s) (registered st)) = length (registered st) - 1"
    by simp_all
  then show ?thesis
    by (auto simp: Broker_unsubscribe_def std_remove_def Let_def registered_def[symmetric])
qed

text \<open>
  Claim C9. \<^verbatim>\<open>unsubscribe\<close> of a subscriber that the table holds once removes that
  entry and no other, the count drops by one, and no later \<^verbatim>\<open>publish\<close> calls the
  subscriber until it registers again; when the table holds the subscriber not at all or
  more than once, the call fails its assertion.
\<close>

theorem unsubscribe_removes_one:
  assumes "Broker_inv st"
  shows "(count_list (registered st) s = 1 \<longrightarrow>
           (\<exists>st'. Broker_unsubscribe st s = Inr st' \<and>
              registered st' = filter (\<lambda>p. p \<noteq> s) (registered st) \<and>
              length (registered st') + 1 = length (registered st) \<and>
              subscriptionCount st' + 1 = subscriptionCount st \<and>
              (\<forall>calls st'' filt v. Subscribe s \<notin> set calls \<and> Broker_run st' calls = Inr st'' \<longrightarrow>
                 (\<exists>received. Broker_publish filt st'' v = Inr received \<and>
                    s \<notin> fst ` set received)))) \<and>
         (count_list (registered st) s \<noteq> 1 \<longrightarrow> Broker_unsubscribe st s = Inl AssertionFailure)"
proof (intro conjI impI)
  assume one: "count_list (registered st) s = 1"
  then obtain st' where u: "Broker_unsubscribe st s = Inr st'"
    using unsubscribe_result[OF assms, of s] by simp
  from registered_unsubscribe[OF assms u]
  have reg: "registered st' = filter (\<lambda>p. p \<noteq> s) (registered st)" and inv: "Broker_inv st'"
    by simp_all
  have "length (registered st) = subscriptionCount st"
    using assms by (simp add: Broker_inv_def registered_def)
  with count_list_one_filter_length[OF one] have "0 < subscriptionCount st"
    by simp
  then have cnt: "subscriptionCount st' + 1 = subscriptionCount st"
    using u one unsubscribe_result[OF assms, of s] by auto
  have later: "\<exists>received. Broker_publish filt st'' v = Inr received \<and> s \<notin> fst ` set received"
    if "Subscribe s \<notin> set calls" "Broker_run st' calls = Inr st''" for calls st'' filt and v :: 'a
  proof -
    from Broker_run_registered[OF inv that(2)]
    have r: "registered st'' = subscribers_after (registered st') calls" and i: "Broker_inv st''"
      by simp_all
    have "s \<notin> set (registered st'')"
      unfolding r by (rule subscribers_after_notin) (simp_all add: reg that(1))
    then show ?thesis
      using publish_from_eq[OF i, of filt v 0 "[]"] by (auto simp: Broker_publish_def)
  qed
  show "\<exists>st'. Broker_unsubscribe st s = Inr st' \<and>
              registered st' = filter (\<lambda>p. p \<noteq> s) (registered st) \<and>
              length (registered st') + 1 = length (registered st) \<and>
              subscriptionCount st' + 1 = subscriptionCount st \<and>
              (\<forall>calls st'' filt v. Subscribe s \<notin> set calls \<and> Broker_run st' calls = Inr st'' \<longrightarrow>
                 (\<exists>received. Broker_publish filt st'' (v::'a) = Inr received \<and>
                    s \<notin> fst ` set received))"
    using u reg cnt later count_list_one_filter_length[OF one] by auto
next
  assume "count_list (registered st) s \<noteq> 1"
  then show "Broker_unsubscribe st s = Inl AssertionFailure"
    using unsubscribe_result[OF assms, of s] by simp
qed

lemma run_example:
  "Broker_run State_ctor [Subscribe 1, Subscribe 2, Subscribe 3, Unsubscribe 2, Subscribe 4]
     = Inr \<lparr>subscriptionCount = 3, subscriptions = [1, 3, 4, 0, 0, 0, 0, 0]\<rparr>"
  by code_simp

theorem publish_fan_out_witness:
  "Broker_run State_ctor [Subscribe 1, Subscribe 2, Subscribe 3, Unsubscribe 2, Subscribe 4]
     = Inr \<lparr>subscriptionCount = 3, subscriptions = [1, 3, 4, 0, 0, 0, 0, 0]\<rparr> \<and>
   Broker_publish (\<lambda>s d. s \<noteq> 3) \<lparr>subscriptionCount = 3, subscriptions = [1, 3, 4, 0, 0, 0, 0, 0]\<rparr> (7::nat)
     = Inr [(1, 7), (4, 7)]"
  using publish_fan_out[OF run_example, of "\<lambda>s d. s \<noteq> 3" "7::nat"] run_example
  by simp

theorem unsubscribe_removes_one_witness:
  "Broker_inv \<lparr>subscriptionCount = 3, subscriptions = [1, 3, 4, 0, 0, 0, 0, 0]\<rparr> \<and>
   count_list (registered \<lparr>subscriptionCount = 3, subscriptions = [1, 3, 4, 0, 0, 0, 0, 0]\<rparr>) 3 = 1 \<and>
   (\<exists>st'. Broker_unsubscribe \<lparr>subscriptionCount = 3, subscriptions = [1, 3, 4, 0, 0, 0, 0, 0]\<rparr> 3
            = Inr st' \<and>
          registered st' = [1, 4] \<and> subscriptionCount st' + 1 = 3) \<and>
   Broker_unsubscribe \<lparr>subscriptionCount = 3, subscriptions = [1, 3, 4, 0, 0, 0, 0, 0]\<rparr> 9
     = Inl AssertionFailure"
proof -
  let ?st = "\<lparr>subscriptionCount = 3, subscriptions = [1, 3, 4, 0, 0, 0, 0, 0]\<rparr>"
  have inv: "Broker_inv ?st"
    by (simp add: Broker_inv_def cMaxSubscriptions_def registered_def)
  have c3: "count_list (registered ?st) 3 = 1" and c9: "count_list (registered ?st) 9 \<noteq> 1"
    by (simp_all add: registered_def)
  note hit0 = unsubscribe_removes_one[where 'a = nat, OF inv, of 3, THEN conjunct1, rule_format, OF c3]
  then obtain st' where u: "Broker_unsubscribe ?st 3 = Inr st'"
    and r: "registered st' = filter (\<lambda>p. p \<noteq> 3) (registered ?st)"
    and n: "subscriptionCount st' + 1 = subscriptionCount ?st"
    by (elim exE conjE)
  have hit: "\<exists>st'. Broker_unsubscribe ?st 3 = Inr st' \<and>
          registered st' = [1, 4] \<and> subscriptionCount st' + 1 = 3"
    using u r n by (intro exI[of _ st']) (simp add: registered_def)
  note miss = unsubscribe_removes_one[where 'a = nat, OF inv, of 9, THEN conjunct2, rule_format, OF c9]
  from inv c3 hit miss show ?thesis by (intro conjI)
qed

section \<open>Properties of the BufferRegister\<close>

lemma lower_bound_spec:
  assumes "\<forall>i j. first \<le> i \<and> i \<le> j \<and> j < first + count \<and> cmp (xs ! j) v \<longrightarrow> cmp (xs ! i) v"
  shows "first \<le> lower_bound cmp xs first count v \<and>
         lower_bound cmp xs first count v \<le> first + count \<and>
         (\<forall>j. first \<le> j \<and> j < lower_bound cmp xs first count v \<longrightarrow> cmp (xs ! j) v) \<and>
         (\<forall>j. lower_bound cmp xs first count v \<le> j \<and> j < first + count \<longrightarrow> \<not> cmp (xs ! j) v)"
  using assms
proof (induction cmp xs first count v rule: lower_bound.induct)
  case (1 cmp xs first count v)
  note mono0 = "1.prems"[rule_format]
  show ?case
  proof (cases "0 < count")
    case False
    then show ?thesis by (subst (1 2 3 4) lower_bound.simps) auto
  next
    case True
    define step where "step = count div 2"
    define it where "it = first + step"
    have st: "step < count" using True by (simp add: step_def)
    show ?thesis
    proof (cases "cmp (xs ! it) v")
      case c: True
      have eq: "lower_bound cmp xs first count v = lower_bound cmp xs (it + 1) (count - (step + 1)) v"
        using True c by (subst lower_bound.simps) (simp add: Let_def step_def it_def)
      have mono: "\<forall>i j. it + 1 \<le> i \<and> i \<le> j \<and> j < it + 1 + (count - (step + 1)) \<and> cmp (xs ! j) v
                    \<longrightarrow> cmp (xs ! i) v"
      proof (intro allI impI)
        fix i j
        assume "it + 1 \<le> i \<and> i \<le> j \<and> j < it + 1 + (count - (step + 1)) \<and> cmp (xs ! j) v"
        then show "cmp (xs ! i) v"
          using mono0[of i j] st by (simp add: it_def)
      qed
      note IH = "1.IH"(1)[OF True step_def it_def c mono]
      have below: "cmp (xs ! j) v" if "first \<le> j" "j \<le> it" for j
        using mono0[of j it] c that st by (simp add: it_def)
      have "cmp (xs ! j) v"
        if "first \<le> j" "j < lower_bound cmp xs (it + 1) (count - (step + 1)) v" for j
        using below[of j] IH that by (cases "j \<le> it") auto
      then show ?thesis
        unfolding eq using IH st by (auto simp: it_def)
    next
      case c: False
      have eq: "lower_bound cmp xs first count v = lower_bound cmp xs first step v"
        using True c by (subst lower_bound.simps) (simp add: Let_def step_def it_def)
      have mono: "\<forall>i j. first \<le> i \<and> i \<le> j \<and> j < first + step \<and> cmp (xs ! j) v \<longrightarrow> cmp (xs ! i) v"
      proof (intro allI impI)
        fix i j
        assume "first \<le> i \<and> i \<le> j \<and> j < first + step \<and> cmp (xs ! j) v"
        then show "cmp (xs ! i) v"
          using mono0[of i j] st by simp
      qed
      note IH = "1.IH"(2)[OF True step_def it_def c mono]
      have above: "\<not> cmp (xs ! j) v" if "it \<le> j" "j < first + count" for j
        using mono0[of it j] c that st by (auto simp: it_def)
      have "\<not> cmp (xs ! j) v"
        if "lower_bound cmp xs first step v \<le> j" "j < first + count" for j
        using above[of j] IH that by (cases "it \<le> j") (auto simp: it_def)
      then show ?thesis
        unfolding eq using IH st by auto
    qed
  qed
qed


lemma Header_eq_iff: "Header_eq (a::Header) b \<longleftrightarrow> a = b"
  by (cases a; cases b) (auto simp: Header_eq_def)

lemma lower_bound_sorted:
  assumes "sorted (map key (take n xs))" "n \<le> length xs"
    and "\<And>e. cmp e v \<longleftrightarrow> key e < (k::'k::linorder)"
  shows "lower_bound cmp xs 0 n v = length (takeWhile (\<lambda>e. key e < k) (take n xs))"
proof -
  let ?i = "lower_bound cmp xs 0 n v"
  have mono: "\<forall>i j. 0 \<le> i \<and> i \<le> j \<and> j < 0 + n \<and> cmp (xs ! j) v \<longrightarrow> cmp (xs ! i) v"
  proof (intro allI impI, elim conjE)
    fix i j assume a: "0 \<le> i" "i \<le> j" "j < 0 + n" "cmp (xs ! j) v"
    have "key (take n xs ! i) \<le> key (take n xs ! j)"
      using assms(1,2) a by (simp add: sorted_iff_nth_mono)
    with a have "key (xs ! i) \<le> key (xs ! j)" "key (xs ! j) < k"
      by (simp_all add: assms(3))
    then have "key (xs ! i) < k" by (rule le_less_trans)
    then show "cmp (xs ! i) v" by (simp add: assms(3))
  qed
  from lower_bound_spec[where first=0 and count=n and cmp=cmp and xs=xs and v=v, OF mono]
  have le: "?i \<le> n" and lo: "\<And>j. j < ?i \<Longrightarrow> key (xs ! j) < k"
    and hi: "\<And>j. ?i \<le> j \<Longrightarrow> j < n \<Longrightarrow> \<not> key (xs ! j) < k"
    by (auto simp: assms(3))
  have "takeWhile (\<lambda>e. key e < k) (take n xs) = take ?i (take n xs)"
  proof (rule takeWhile_eq_take_P_nth)
    fix j assume "j < ?i" "j < length (take n xs)"
    then show "key (take n xs ! j) < k" using lo by simp
  next
    assume "?i < length (take n xs)"
    then show "\<not> key (take n xs ! ?i) < k" using hi[of ?i] by simp
  qed
  then show ?thesis using le assms(2) by simp
qed

lemma lower_bound_set:
  assumes "registry_inv r"
  shows "lower_bound (\<lambda>lhs rhs. Header_less (fst lhs) rhs) (registry_' r) 0 (registryEnd_' r) h
           = lb (entries r) h"
  unfolding lb_def entries_def
  by (rule lower_bound_sorted[where key = "\<lambda>e. typeId (fst e)"])
     (use assms in \<open>auto simp: registry_inv_def entries_def Header_less_def\<close>)

lemma lower_bound_find:
  assumes "registry_inv r"
  shows "lower_bound (\<lambda>lhs rhs. Header_less (fst lhs) (fst rhs)) (registry_' r) 0 (registryEnd_' r) (h, b)
           = lb (entries r) h"
  unfolding lb_def entries_def
  by (rule lower_bound_sorted[where key = "\<lambda>e. typeId (fst e)"])
     (use assms in \<open>auto simp: registry_inv_def entries_def Header_less_def\<close>)

lemma lb_le: "lb es h \<le> length es"
  by (simp add: lb_def length_takeWhile_le)

lemma find_entries:
  assumes "registry_inv r"
  shows "BufferRegister_find r h =
     (if lb (entries r) h < length (entries r) \<and> fst (entries r ! lb (entries r) h) = h
      then snd (entries r ! lb (entries r) h) else Buffer_null)"
proof -
  have len: "length (entries r) = registryEnd_' r"
    using assms by (simp add: registry_inv_def entries_def)
  have nth: "i < registryEnd_' r \<Longrightarrow> registry_' r ! i = entries r ! i" for i
    by (simp add: entries_def)
  show ?thesis
    using lb_le[of "entries r" h] nth[of "lb (entries r) h"]
    by (auto simp: BufferRegister_find_def lower_bound_find[OF assms] Let_def Header_eq_iff len)
qed

lemma set_entries:
  assumes inv: "registry_inv r" and cap: "registryEnd_' r < cMaxDataBufferCount"
  shows "\<exists>r'. BufferRegister_set r h b = Inr r' \<and> entries r' = upsert (entries r) h b \<and>
              length (registry_' r') = cMaxDataBufferCount \<and>
              registryEnd_' r' = length (upsert (entries r) h b)"
proof -
  let ?xs = "registry_' r" and ?n = "registryEnd_' r" and ?i = "lb (entries r) h"
  have len: "length ?xs = cMaxDataBufferCount" and elen: "length (entries r) = ?n"
    using inv by (simp_all add: registry_inv_def entries_def)
  have i_le: "?i \<le> ?n" using lb_le[of "entries r" h] elen by simp
  have nth: "j < ?n \<Longrightarrow> ?xs ! j = entries r ! j" for j
    by (simp add: entries_def)
  show ?thesis
  proof (cases "?i \<noteq> ?n \<and> Header_eq (fst (?xs ! ?i)) h")
    case True
    then have lt: "?i < ?n" using i_le by simp
    have fst_eq: "fst (entries r ! ?i) = h"
      using True nth[OF lt] by (simp add: Header_eq_iff)
    have "BufferRegister_set r h b = Inr (r\<lparr>registry_' := ?xs[?i := (fst (?xs ! ?i), b)]\<rparr>)"
      using True cap by (simp add: BufferRegister_set_def lower_bound_set[OF inv] Let_def)
    moreover have "take ?n (?xs[?i := (fst (?xs ! ?i), b)]) = upsert (entries r) h b"
      using lt fst_eq nth[OF lt] elen
      by (simp add: upsert_def take_update_swap entries_def[symmetric])
    ultimately show ?thesis
      using len elen lt fst_eq by (auto simp: entries_def upsert_def)
  next
    case False
    then have notex: "\<not> (?i < length (entries r) \<and> fst (entries r ! ?i) = h)"
      using i_le elen nth[of ?i] by (auto simp: Header_eq_iff)
    define moved where "moved = move_backward ?xs ?i ?n (Suc ?n)"
    have mlen: "length moved = cMaxDataBufferCount"
      using i_le cap len by (simp add: moved_def move_backward_def)
    then have idx: "?i < length (move_backward ?xs ?i ?n (Suc ?n))"
      using i_le cap by (simp add: moved_def)
    have set_eq: "BufferRegister_set r h b =
        Inr \<lparr>registry_' = moved[?i := (h, b)], registryEnd_' = ?n + 1\<rparr>"
      using False cap idx
      by (simp add: BufferRegister_set_def lower_bound_set[OF inv] Let_def moved_def)
    have "take (?n + 1) (moved[?i := (h, b)]) = take ?i (entries r) @ (h, b) # drop ?i (entries r)"
    proof (rule nth_equalityI)
      show "length (take (?n + 1) (moved[?i := (h, b)])) =
            length (take ?i (entries r) @ (h, b) # drop ?i (entries r))"
        using mlen cap i_le elen by simp
    next
      fix j assume "j < length (take (?n + 1) (moved[?i := (h, b)]))"
      then have j: "j < ?n + 1" by simp
      have mv: "moved ! j = (if j \<le> ?i then ?xs ! j else ?xs ! (j - 1))" if "j \<noteq> ?i"
        using j that i_le cap len
        by (auto simp: moved_def move_backward_def nth_append min_def)
      show "take (?n + 1) (moved[?i := (h, b)]) ! j =
            (take ?i (entries r) @ (h, b) # drop ?i (entries r)) ! j"
      proof (cases "j = ?i")
        case True
        then show ?thesis using j mlen cap i_le elen by (simp add: nth_append)
      next
        case False
        then show ?thesis
          using j mv[OF False] i_le elen cap mlen nth
          by (auto simp: nth_append nth_Cons' min_def)
      qed
    qed
    then show ?thesis
      using set_eq notex mlen i_le elen by (auto simp: entries_def upsert_def)
  qed
qed

lemma lb_simps:
  "lb [] h = 0"
  "lb (e # es) h = (if typeId (fst e) < typeId h then Suc (lb es h) else 0)"
  by (simp_all add: lb_def)

lemma upsert_Nil: "upsert [] h b = [(h, b)]"
  by (simp add: upsert_def lb_simps)

lemma upsert_Cons:
  "upsert (e # es) h b =
     (if typeId (fst e) < typeId h then e # upsert es h b
      else if fst e = h then (h, b) # es
      else (h, b) # e # es)"
  by (auto simp: upsert_def lb_simps)

lemma keys_upsert:
  "(\<lambda>e. typeId (fst e)) ` set (upsert es h b) = insert (typeId h) ((\<lambda>e. typeId (fst e)) ` set es)"
  by (induction es) (auto simp: upsert_Nil upsert_Cons)

lemma headers_upsert:
  "fst ` set (upsert es h b) = insert h (fst ` set es)"
  by (induction es) (auto simp: upsert_Nil upsert_Cons)

lemma sorted_upsert:
  "sorted (map (\<lambda>e. typeId (fst e)) es) \<Longrightarrow> sorted (map (\<lambda>e. typeId (fst e)) (upsert es h b))"
proof (induction es)
  case Nil
  then show ?case by (simp add: upsert_Nil)
next
  case (Cons e es)
  have "typeId (fst e) \<le> k" if "k \<in> (\<lambda>e. typeId (fst e)) ` set (upsert es h b)" "typeId (fst e) < typeId h" for k
    using that Cons.prems unfolding keys_upsert by auto
  then show ?case
    using Cons by (auto simp: upsert_Cons)
qed


lemma strict_upsert:
  assumes "strict es" "\<forall>e \<in> set es. typeId (fst e) = typeId h \<longrightarrow> fst e = h"
  shows "strict (upsert es h b)"
  using assms unfolding strict_def
proof (induction es)
  case Nil
  then show ?case by (simp add: upsert_Nil)
next
  case (Cons e es)
  have "typeId (fst e) < typeId (fst x)" if "x \<in> set (upsert es h b)" "typeId (fst e) < typeId h" for x
  proof -
    from that(1) have "typeId (fst x) \<in> (\<lambda>e. typeId (fst e)) ` set (upsert es h b)"
      by (rule imageI)
    then have "typeId (fst x) \<in> insert (typeId h) ((\<lambda>e. typeId (fst e)) ` set es)"
      by (simp only: keys_upsert)
    then show ?thesis using that(2) Cons.prems(1) by auto
  qed
  moreover have "typeId h < typeId (fst e)" if "\<not> typeId (fst e) < typeId h" "fst e \<noteq> h"
    using that Cons.prems(2) by fastforce
  ultimately show ?case
    using Cons by (auto simp: upsert_Cons)
qed

lemma upsert_existing:
  assumes "strict es" "h \<in> fst ` set es"
  shows "upsert es h b = map (\<lambda>e. if fst e = h then (h, b) else e) es"
  using assms unfolding strict_def
proof (induction es)
  case Nil
  then show ?case by simp
next
  case (Cons e es)
  show ?case
  proof (cases "fst e = h")
    case True
    have "map (\<lambda>e. if fst e = h then (h, b) else e) es = es"
      using Cons.prems(1) True by (intro map_idI) auto
    with True show ?thesis by (simp add: upsert_Cons)
  next
    case False
    with Cons.prems obtain x where x: "x \<in> set es" "fst x = h" by auto
    with Cons.prems(1) have "typeId (fst e) < typeId h" by auto
    with False Cons x show ?thesis by (auto simp: upsert_Cons)
  qed
qed

lemma lb_finds:
  assumes "strict es" "(h, b) \<in> set es"
  shows "lb es h < length es \<and> es ! lb es h = (h, b)"
  using assms unfolding strict_def
proof (induction es)
  case Nil
  then show ?case by simp
next
  case (Cons e es)
  show ?case
  proof (cases "e = (h, b)")
    case True
    then show ?thesis by (simp add: lb_simps)
  next
    case False
    with Cons.prems have in_es: "(h, b) \<in> set es" by simp
    with Cons.prems(1) have "typeId (fst e) < typeId h" by auto
    with Cons in_es show ?thesis by (simp add: lb_simps)
  qed
qed

lemma strict_distinct: "strict es \<Longrightarrow> distinct (map fst es)"
  unfolding strict_def by (induction es) auto

lemma strict_Header_less: "strict es \<Longrightarrow> sorted_wrt Header_less (map fst es)"
  unfolding strict_def by (simp add: sorted_wrt_map Header_less_def)

lemma strict_iff:
  "strict es \<longleftrightarrow> sorted (map (\<lambda>e. typeId (fst e)) es) \<and> distinct (map (\<lambda>e. typeId (fst e)) es)"
  unfolding strict_def using strict_sorted_iff[of "map (\<lambda>e. typeId (fst e)) es"]
  by (simp add: sorted_wrt_map)

lemma registry_inv_ctor: "registry_inv BufferRegister_ctor \<and> entries BufferRegister_ctor = []"
  by (simp add: registry_inv_def BufferRegister_ctor_def entries_def)

lemma set_Inr_cap: "BufferRegister_set r h b = Inr r' \<Longrightarrow> registryEnd_' r < cMaxDataBufferCount"
  by (auto simp: BufferRegister_set_def split: if_splits)

lemma set_step:
  assumes "registry_inv r" "BufferRegister_set r h b = Inr r'"
  shows "registry_inv r' \<and> entries r' = upsert (entries r) h b"
proof -
  from set_entries[OF assms(1) set_Inr_cap[OF assms(2)], of h b] assms(2)
  have e: "entries r' = upsert (entries r) h b" and l: "length (registry_' r') = cMaxDataBufferCount"
    and n: "registryEnd_' r' = length (upsert (entries r) h b)"
    by auto
  have "registryEnd_' r' \<le> cMaxDataBufferCount"
    using e n l by (metis entries_def length_take min.cobounded1)
  moreover have "sorted (map (\<lambda>e. typeId (fst e)) (entries r'))"
    unfolding e using assms(1) by (intro sorted_upsert) (simp add: registry_inv_def)
  ultimately show ?thesis using e l by (simp add: registry_inv_def)
qed

lemma run_inv:
  assumes "registry_inv r" "BufferRegister_run r calls = Inr r'"
  shows "registry_inv r'"
  using assms
proof (induction r calls rule: BufferRegister_run.induct)
  case (1 r)
  then show ?case by simp
next
  case (2 r header buf calls)
  then obtain r1 where s: "BufferRegister_set r header buf = Inr r1"
    and run: "BufferRegister_run r1 calls = Inr r'"
    by (auto split: sum.splits)
  from set_step[OF "2.prems"(1) s] "2.IH"[OF s _ run] show ?case by simp
qed

lemma compatible_mono: "compatible H' \<Longrightarrow> H \<subseteq> H' \<Longrightarrow> compatible H"
  unfolding compatible_def by blast

lemma compatibleD: "compatible H \<Longrightarrow> h \<in> H \<Longrightarrow> h' \<in> H \<Longrightarrow> typeId h = typeId h' \<Longrightarrow> h = h'"
  unfolding compatible_def by (cases h; cases h') auto

lemma run_strict:
  assumes "registry_inv r" "strict (entries r)" "BufferRegister_run r calls = Inr r'"
    and "compatible (fst ` set (entries r) \<union> fst ` set calls)"
  shows "registry_inv r' \<and> strict (entries r') \<and>
         fst ` set (entries r') = fst ` set (entries r) \<union> fst ` set calls"
  using assms
proof (induction r calls rule: BufferRegister_run.induct)
  case (1 r)
  then show ?case by simp
next
  case (2 r header buf calls)
  from "2.prems"(3) obtain r1 where s: "BufferRegister_set r header buf = Inr r1"
    and run: "BufferRegister_run r1 calls = Inr r'"
    by (auto split: sum.splits)
  from set_step[OF "2.prems"(1) s]
  have inv1: "registry_inv r1" and e1: "entries r1 = upsert (entries r) header buf" by simp_all
  have "fst e = header" if "e \<in> set (entries r)" "typeId (fst e) = typeId header" for e
    by (rule compatibleD[OF "2.prems"(4)]) (use that in auto)
  then have st1: "strict (entries r1)"
    unfolding e1 by (intro strict_upsert[OF "2.prems"(2)]) blast
  have hs: "fst ` set (entries r1) = insert header (fst ` set (entries r))"
    unfolding e1 by (rule headers_upsert)
  have eq: "fst ` set (entries r1) \<union> fst ` set calls
          = fst ` set (entries r) \<union> fst ` set ((header, buf) # calls)"
    unfolding hs by auto
  have compat: "compatible (fst ` set (entries r1) \<union> fst ` set calls)"
    unfolding eq by (rule "2.prems"(4))
  from "2.IH"[OF s inv1 st1 run compat] show ?case
    unfolding eq by simp
qed

lemma run_entries:
  assumes "registry_inv r" "BufferRegister_run r calls = Inr r'"
  shows "entries r' = foldl (\<lambda>es c. upsert es (fst c) (snd c)) (entries r) calls"
  using assms
proof (induction r calls rule: BufferRegister_run.induct)
  case (1 r)
  then show ?case by simp
next
  case (2 r header buf calls)
  from "2.prems"(2) obtain r1 where s: "BufferRegister_set r header buf = Inr r1"
    and run: "BufferRegister_run r1 calls = Inr r'"
    by (auto split: sum.splits)
  from set_step[OF "2.prems"(1) s] "2.IH"[OF s _ run] show ?case by simp
qed

lemma length_upsert: "length (upsert es h b) \<le> Suc (length es)"
  by (auto simp: upsert_def)

lemma run_succeeds:
  assumes "registry_inv r" "registryEnd_' r + length calls \<le> cMaxDataBufferCount"
  shows "\<exists>r'. BufferRegister_run r calls = Inr r'"
  using assms
proof (induction r calls rule: BufferRegister_run.induct)
  case (1 r)
  then show ?case by simp
next
  case (2 r header buf calls)
  then have cap: "registryEnd_' r < cMaxDataBufferCount" by simp
  from set_entries[OF "2.prems"(1) cap, of header buf]
  obtain r1 where s: "BufferRegister_set r header buf = Inr r1"
    and n: "registryEnd_' r1 = length (upsert (entries r) header buf)"
    by auto
  have "length (entries r) = registryEnd_' r"
    using "2.prems"(1) by (simp add: registry_inv_def entries_def)
  with n length_upsert[of "entries r" header buf] "2.prems"(2)
  have "registryEnd_' r1 + length calls \<le> cMaxDataBufferCount" by simp
  with "2.IH"[OF s] set_step[OF "2.prems"(1) s] s show ?case by simp
qed

lemma run_ctor_entries:
  assumes "length calls \<le> cMaxDataBufferCount"
  shows "map_sum id entries (BufferRegister_run BufferRegister_ctor calls)
         = Inr (foldl (\<lambda>es c. upsert es (fst c) (snd c)) [] calls)"
proof -
  have "registryEnd_' BufferRegister_ctor + length calls \<le> cMaxDataBufferCount"
    using assms by (simp add: BufferRegister_ctor_def)
  from run_succeeds[OF _ this] registry_inv_ctor
  obtain r where run: "BufferRegister_run BufferRegister_ctor calls = Inr r" by auto
  from run_entries[OF _ run] registry_inv_ctor show ?thesis
    by (simp add: run)
qed

lemma three_entries:
  "map_sum id entries (BufferRegister_run BufferRegister_ctor example_three) =
      Inr [(\<lparr>typeId = 100, dataBytes = 4\<rparr>, example_buffer 4 4),
           (\<lparr>typeId = 200, dataBytes = 4\<rparr>, example_buffer 2 4),
           (\<lparr>typeId = 300, dataBytes = 8\<rparr>, example_buffer 3 8)]"
  by (subst run_ctor_entries)
     (simp_all add: example_three_def cMaxDataBufferCount_def upsert_Nil upsert_Cons)

lemma collision_entries:
  "map_sum id entries (BufferRegister_run BufferRegister_ctor (example_collision @ calls)) =
     Inr es \<Longrightarrow>
   map_sum id (\<lambda>r. f (entries r)) (BufferRegister_run BufferRegister_ctor (example_collision @ calls)) =
     Inr (f es)"
  by (cases "BufferRegister_run BufferRegister_ctor (example_collision @ calls)") auto

text \<open>
  Claim C7, amended. After any sequence of \<^verbatim>\<open>set\<close> calls that pass the capacity
  assertion and in which headers of one \<^verbatim>\<open>typeId\<close> have one payload size, the directory
  holds one entry per registered header and no other, sorted by \<^verbatim>\<open>typeId\<close>, and a further
  \<^verbatim>\<open>set\<close> below capacity whose header equals an entry's overwrites that entry's
  descriptor and adds none.
\<close>

theorem directory_sorted_unique:
  assumes "BufferRegister_run BufferRegister_ctor calls = Inr r"
    and "compatible (fst ` set calls)"
  shows "distinct (map fst (entries r)) \<and>
         sorted_wrt Header_less (map fst (entries r)) \<and>
         fst ` set (entries r) = fst ` set calls \<and>
         (\<forall>h b. h \<in> fst ` set (entries r) \<and> registryEnd_' r < cMaxDataBufferCount \<longrightarrow>
            (\<exists>r'. BufferRegister_set r h b = Inr r' \<and>
                  entries r' = map (\<lambda>e. if fst e = h then (h, b) else e) (entries r)))"
proof -
  have s0: "strict (entries BufferRegister_ctor)"
    by (simp add: registry_inv_ctor strict_def)
  from run_strict[OF _ s0 assms(1)] assms(2) registry_inv_ctor
  have inv: "registry_inv r" and st: "strict (entries r)"
    and hs: "fst ` set (entries r) = fst ` set calls"
    by simp_all
  have "\<exists>r'. BufferRegister_set r h b = Inr r' \<and>
             entries r' = map (\<lambda>e. if fst e = h then (h, b) else e) (entries r)"
    if "h \<in> fst ` set (entries r)" "registryEnd_' r < cMaxDataBufferCount" for h b
    using set_entries[OF inv that(2), of h b] upsert_existing[OF st that(1), of b] by auto
  then show ?thesis
    using strict_distinct[OF st] strict_Header_less[OF st] hs by blast
qed

theorem directory_sorted_unique_witness:
  "\<exists>r. BufferRegister_run BufferRegister_ctor example_three = Inr r \<and>
       compatible (fst ` set example_three) \<and>
       map fst (entries r) =
         [\<lparr>typeId = 100, dataBytes = 4\<rparr>, \<lparr>typeId = 200, dataBytes = 4\<rparr>, \<lparr>typeId = 300, dataBytes = 8\<rparr>] \<and>
       distinct (map fst (entries r)) \<and> sorted_wrt Header_less (map fst (entries r))"
proof -
  from three_entries
  obtain r where run: "BufferRegister_run BufferRegister_ctor example_three = Inr r"
    and es: "entries r =
          [(\<lparr>typeId = 100, dataBytes = 4\<rparr>, example_buffer 4 4),
           (\<lparr>typeId = 200, dataBytes = 4\<rparr>, example_buffer 2 4),
           (\<lparr>typeId = 300, dataBytes = 8\<rparr>, example_buffer 3 8)]"
    by (cases "BufferRegister_run BufferRegister_ctor example_three") auto
  have compat: "compatible (fst ` set example_three)"
    by (simp add: compatible_def example_three_def)
  have m: "map fst (entries r) =
         [\<lparr>typeId = 100, dataBytes = 4\<rparr>, \<lparr>typeId = 200, dataBytes = 4\<rparr>, \<lparr>typeId = 300, dataBytes = 8\<rparr>]"
    by (simp add: es)
  note concl = directory_sorted_unique[OF run compat]
  show ?thesis
    by (intro exI[of _ r] conjI run compat m concl[THEN conjunct1]
        concl[THEN conjunct2, THEN conjunct1])
qed

text \<open>
  The claim as stated fails: registering sizes 4 and 8 under one \<^verbatim>\<open>typeId\<close> and then
  size 4 again leaves two entries for the header of size 4.
\<close>

theorem directory_duplicate_counterexample:
  "map_sum id (\<lambda>r. map fst (entries r))
     (BufferRegister_run BufferRegister_ctor
        (example_collision @ [(\<lparr>typeId = 5, dataBytes = 4\<rparr>, example_buffer 3 4)]))
   = Inr [\<lparr>typeId = 5, dataBytes = 4\<rparr>, \<lparr>typeId = 5, dataBytes = 8\<rparr>, \<lparr>typeId = 5, dataBytes = 4\<rparr>]"
proof -
  have "map_sum id entries (BufferRegister_run BufferRegister_ctor
        (example_collision @ [(\<lparr>typeId = 5, dataBytes = 4\<rparr>, example_buffer 3 4)])) =
       Inr [(\<lparr>typeId = 5, dataBytes = 4\<rparr>, example_buffer 3 4),
            (\<lparr>typeId = 5, dataBytes = 8\<rparr>, example_buffer 2 8),
            (\<lparr>typeId = 5, dataBytes = 4\<rparr>, example_buffer 1 4)]"
    by (subst run_ctor_entries)
       (simp_all add: example_collision_def cMaxDataBufferCount_def upsert_Nil upsert_Cons)
  from collision_entries[OF this, of "map fst"] show ?thesis by simp
qed

lemma lb_first:
  assumes "sorted (map (\<lambda>e. typeId (fst e)) es)"
  shows "first_of_typeId es (typeId h) =
           (if lb es h < length es \<and> typeId (fst (es ! lb es h)) = typeId h
            then Some (es ! lb es h) else None)"
  using assms
proof (induction es)
  case Nil
  then show ?case by (simp add: first_of_typeId_def lb_simps)
next
  case (Cons e es)
  then have IH: "first_of_typeId es (typeId h) =
           (if lb es h < length es \<and> typeId (fst (es ! lb es h)) = typeId h
            then Some (es ! lb es h) else None)"
    and le: "\<forall>x\<in>set es. typeId (fst e) \<le> typeId (fst x)"
    by auto
  show ?case
  proof (cases "typeId (fst e) < typeId h")
    case True
    then have "typeId (fst e) \<noteq> typeId h" by simp
    with True IH show ?thesis by (simp add: first_of_typeId_def lb_simps)
  next
    case False
    show ?thesis
    proof (cases "typeId (fst e) = typeId h")
      case True
      then show ?thesis by (simp add: first_of_typeId_def lb_simps)
    next
      case ne: False
      with False have gt: "typeId h < typeId (fst e)" by simp
      with le have "\<forall>x\<in>set es. typeId (fst x) \<noteq> typeId h" by auto
      then have "List.find (\<lambda>e. typeId (fst e) = typeId h) es = None"
        by (auto simp: find_None_iff)
      with ne False show ?thesis by (simp add: first_of_typeId_def lb_simps)
    qed
  qed
qed

lemma find_first:
  assumes "registry_inv r"
  shows "BufferRegister_find r h =
     (case first_of_typeId (entries r) (typeId h) of
        None \<Rightarrow> Buffer_null
      | Some e \<Rightarrow> if fst e = h then snd e else Buffer_null)"
proof -
  from assms have "sorted (map (\<lambda>e. typeId (fst e)) (entries r))"
    by (simp add: registry_inv_def)
  from lb_first[OF this, of h] show ?thesis
    by (auto simp: find_entries[OF assms])
qed

text \<open>
  Claim C8, amended. In every directory that a sequence of \<^verbatim>\<open>set\<close> calls reaches and for
  every header \<open>h\<close>, \<^verbatim>\<open>find(h)\<close> looks at the first entry that has the \<^verbatim>\<open>typeId\<close> of
  \<open>h\<close> and at no other: it returns the descriptor of that entry when its header equals
  \<open>h\<close>, and the descriptor with the null buffer pointer when it does not or when there is
  no such entry. Hence \<^verbatim>\<open>find(h)\<close> returns the null descriptor when no entry has the
  header \<open>h\<close>; a descriptor it returns is the null descriptor or that of an entry whose
  header is \<open>h\<close>; and when an entry has the header \<open>h\<close> and no other entry has the
  \<^verbatim>\<open>typeId\<close> of \<open>h\<close>, \<^verbatim>\<open>find(h)\<close> returns the descriptor of that entry.
\<close>

theorem find_returns_registered:
  assumes "BufferRegister_run BufferRegister_ctor calls = Inr r"
  shows "BufferRegister_find r h =
           (case first_of_typeId (entries r) (typeId h) of
              None \<Rightarrow> Buffer_null
            | Some e \<Rightarrow> if fst e = h then snd e else Buffer_null) \<and>
         (h \<notin> fst ` set (entries r) \<longrightarrow> BufferRegister_find r h = Buffer_null) \<and>
         (BufferRegister_find r h = Buffer_null \<or>
          (h, BufferRegister_find r h) \<in> set (entries r)) \<and>
         (\<forall>b. (h, b) \<in> set (entries r) \<and>
              (\<forall>e \<in> set (entries r). typeId (fst e) = typeId h \<longrightarrow> e = (h, b)) \<longrightarrow>
              BufferRegister_find r h = b)"
proof -
  from run_inv[OF _ assms(1)] registry_inv_ctor have inv: "registry_inv r" by simp
  note eq = find_first[OF inv, of h]
  have miss: "BufferRegister_find r h = Buffer_null" if "h \<notin> fst ` set (entries r)"
  proof (cases "first_of_typeId (entries r) (typeId h)")
    case None
    with eq show ?thesis by simp
  next
    case (Some e)
    then have "e \<in> set (entries r)"
      by (auto simp: first_of_typeId_def find_Some_iff)
    with that have "fst e \<noteq> h" by auto
    with eq Some show ?thesis by simp
  qed
  have sound: "BufferRegister_find r h = Buffer_null \<or>
      (h, BufferRegister_find r h) \<in> set (entries r)"
  proof (cases "first_of_typeId (entries r) (typeId h)")
    case None
    with eq show ?thesis by simp
  next
    case (Some e)
    then have "e \<in> set (entries r)"
      by (auto simp: first_of_typeId_def find_Some_iff)
    with eq Some show ?thesis by (cases e) auto
  qed
  have hit: "BufferRegister_find r h = b"
    if "(h, b) \<in> set (entries r)"
      "\<forall>e \<in> set (entries r). typeId (fst e) = typeId h \<longrightarrow> e = (h, b)" for b
  proof (cases "first_of_typeId (entries r) (typeId h)")
    case None
    with that(1) show ?thesis
      by (auto simp: first_of_typeId_def find_None_iff)
  next
    case (Some e)
    then have "e \<in> set (entries r)" "typeId (fst e) = typeId h"
      by (auto simp: first_of_typeId_def find_Some_iff)
    with that(2) have "e = (h, b)" by blast
    with eq Some show ?thesis by simp
  qed
  from eq miss sound hit show ?thesis by blast
qed

theorem find_returns_registered_witness:
  "\<exists>r. BufferRegister_run BufferRegister_ctor example_three = Inr r \<and>
       entries r =
          [(\<lparr>typeId = 100, dataBytes = 4\<rparr>, example_buffer 4 4),
           (\<lparr>typeId = 200, dataBytes = 4\<rparr>, example_buffer 2 4),
           (\<lparr>typeId = 300, dataBytes = 8\<rparr>, example_buffer 3 8)] \<and>
       BufferRegister_find r \<lparr>typeId = 100, dataBytes = 4\<rparr> = example_buffer 4 4 \<and>
       BufferRegister_find r \<lparr>typeId = 200, dataBytes = 4\<rparr> = example_buffer 2 4 \<and>
       BufferRegister_find r \<lparr>typeId = 300, dataBytes = 8\<rparr> = example_buffer 3 8 \<and>
       BufferRegister_find r \<lparr>typeId = 400, dataBytes = 4\<rparr> = Buffer_null \<and>
       BufferRegister_find r \<lparr>typeId = 100, dataBytes = 8\<rparr> = Buffer_null"
proof -
  from three_entries
  obtain r where run: "BufferRegister_run BufferRegister_ctor example_three = Inr r"
    and es: "entries r =
          [(\<lparr>typeId = 100, dataBytes = 4\<rparr>, example_buffer 4 4),
           (\<lparr>typeId = 200, dataBytes = 4\<rparr>, example_buffer 2 4),
           (\<lparr>typeId = 300, dataBytes = 8\<rparr>, example_buffer 3 8)]"
    by (cases "BufferRegister_run BufferRegister_ctor example_three") auto
  have hit: "BufferRegister_find r h = b"
    if "(h, b) \<in> set (entries r) \<and>
        (\<forall>e \<in> set (entries r). typeId (fst e) = typeId h \<longrightarrow> e = (h, b))" for h b
    using find_returns_registered[OF run, of h, THEN conjunct2, THEN conjunct2, THEN conjunct2,
        rule_format, OF that] .
  have miss: "BufferRegister_find r h = Buffer_null" if "h \<notin> fst ` set (entries r)" for h
    using find_returns_registered[OF run, of h, THEN conjunct2, THEN conjunct1, rule_format,
        OF that] .
  show ?thesis
    by (intro exI[of _ r] conjI run es hit miss) (simp_all add: es)
qed

text \<open>
  The claim as stated fails: with sizes 4 and 8 registered under one \<^verbatim>\<open>typeId\<close>,
  \<^verbatim>\<open>find\<close> of the header of size 4 returns the null descriptor although the entry is
  there.
\<close>

theorem find_misses_registered_counterexample:
  "map_sum id (\<lambda>r. (entries r, BufferRegister_find r \<lparr>typeId = 5, dataBytes = 4\<rparr>))
     (BufferRegister_run BufferRegister_ctor example_collision)
   = Inr ([(\<lparr>typeId = 5, dataBytes = 8\<rparr>, example_buffer 2 8),
           (\<lparr>typeId = 5, dataBytes = 4\<rparr>, example_buffer 1 4)],
          Buffer_null)"
proof -
  have e: "map_sum id entries (BufferRegister_run BufferRegister_ctor example_collision) =
       Inr [(\<lparr>typeId = 5, dataBytes = 8\<rparr>, example_buffer 2 8),
            (\<lparr>typeId = 5, dataBytes = 4\<rparr>, example_buffer 1 4)]"
    by (subst run_ctor_entries)
       (simp_all add: example_collision_def cMaxDataBufferCount_def upsert_Nil upsert_Cons)
  then obtain r where run: "BufferRegister_run BufferRegister_ctor example_collision = Inr r"
    and es: "entries r = [(\<lparr>typeId = 5, dataBytes = 8\<rparr>, example_buffer 2 8),
            (\<lparr>typeId = 5, dataBytes = 4\<rparr>, example_buffer 1 4)]"
    by (cases "BufferRegister_run BufferRegister_ctor example_collision") auto
  from run_inv[OF _ run] registry_inv_ctor have inv: "registry_inv r" by simp
  have "BufferRegister_find r \<lparr>typeId = 5, dataBytes = 4\<rparr> = Buffer_null"
    by (simp add: find_entries[OF inv] es lb_simps)
  then show ?thesis by (simp add: run es)
qed

section \<open>Properties of the BinaryWriter\<close>

lemma write_is_until_short:
  "BinaryWriter_write dev P s brokerTypeId data =
     write_until_short dev s (components P brokerTypeId data)"
  by (cases "Prefix_t P"; cases "Postfix_t P")
     (auto simp: BinaryWriter_write_def components_def utility_write_default_def utility_write_def
        taken_whole_def Let_def split: prod.splits)

lemma write_each_Cons:
  "write_each dev s (v # vs) = write_each dev (snd (OStream_write dev s v)) vs"
  by (simp add: write_each_def)

lemma write_each_Nil: "write_each dev s [] = s"
  by (simp add: write_each_def)

lemma all_less_Suc: "(\<forall>k<Suc n. Q k) \<longleftrightarrow> Q 0 \<and> (\<forall>k<n. Q (Suc k))"
  by (metis less_Suc_eq_0_disj Suc_less_eq zero_less_Suc)

lemma until_short_success:
  "fst (write_until_short dev s cs) \<longleftrightarrow>
     (\<forall>k<length cs. taken_whole dev (write_each dev s (take k cs)) (cs ! k))"
  by (induction cs arbitrary: s) (simp_all add: all_less_Suc write_each_Cons write_each_Nil)

lemma until_short_all:
  "fst (write_until_short dev s cs) \<Longrightarrow> snd (write_until_short dev s cs) = write_each dev s cs"
  by (induction cs arbitrary: s) (simp_all add: write_each_Cons write_each_Nil split: if_splits)

lemma until_short_stops:
  assumes "k < length cs"
    and "\<forall>j<k. taken_whole dev (write_each dev s (take j cs)) (cs ! j)"
    and "\<not> taken_whole dev (write_each dev s (take k cs)) (cs ! k)"
  shows "write_until_short dev s cs =
           (False, snd (OStream_write dev (write_each dev s (take k cs)) (cs ! k)))"
  using assms
proof (induction cs arbitrary: s k)
  case Nil
  then show ?case by simp
next
  case (Cons v vs)
  show ?case
  proof (cases k)
    case 0
    with Cons.prems show ?thesis by (simp add: write_each_Nil)
  next
    case (Suc k')
    with Cons.prems have t: "taken_whole dev s v"
      by (auto simp: write_each_Nil dest: spec[of _ 0])
    have "\<forall>j<k'. taken_whole dev (write_each dev (snd (OStream_write dev s v)) (take j vs)) (vs ! j)"
      using Cons.prems(2) Suc by (auto simp: write_each_Cons dest: spec[of _ "Suc j" for j])
    with Cons.IH[of k' "snd (OStream_write dev s v)"] Cons.prems Suc t
    show ?thesis by (simp add: write_each_Cons)
  qed
qed

lemma wire_OStream_write:
  "wire (snd (OStream_write dev s v)) = wire s @ take (fst (OStream_write dev s v)) v"
  by (simp add: OStream_write_def Let_def split: prod.splits)

lemma wire_write_each:
  assumes "k \<le> length cs"
    and "\<forall>j<k. taken_whole dev (write_each dev s (take j cs)) (cs ! j)"
  shows "wire (write_each dev s (take k cs)) = wire s @ concat (take k cs)"
  using assms
proof (induction cs arbitrary: s k)
  case Nil
  then show ?case by (simp add: write_each_Nil)
next
  case (Cons v vs)
  show ?case
  proof (cases k)
    case 0
    then show ?thesis by (simp add: write_each_Nil)
  next
    case (Suc k')
    with Cons.prems have t: "taken_whole dev s v"
      by (auto simp: write_each_Nil dest: spec[of _ 0])
    have "\<forall>j<k'. taken_whole dev (write_each dev (snd (OStream_write dev s v)) (take j vs)) (vs ! j)"
      using Cons.prems(2) Suc by (auto simp: write_each_Cons dest: spec[of _ "Suc j" for j])
    with Cons.IH[of k' "snd (OStream_write dev s v)"] Cons.prems Suc
    have "wire (write_each dev (snd (OStream_write dev s v)) (take k' vs)) =
          wire (snd (OStream_write dev s v)) @ concat (take k' vs)" by simp
    moreover from t have "wire (snd (OStream_write dev s v)) = wire s @ v"
      by (simp add: wire_OStream_write taken_whole_def)
    ultimately show ?thesis using Suc by (simp add: write_each_Cons)
  qed
qed

lemma concat_components: "concat (components P brokerTypeId data) = frame P brokerTypeId data"
  by (simp add: components_def frame_def split: option.splits)

text \<open>
  Claim C6, amended. For every device behind the stream: \<^verbatim>\<open>write\<close> reports success
  exactly when the stream takes each component whole in its turn, and then the stream has
  been offered all the components and the frame follows what was on the wire before. When
  a component is the first that the stream does not take whole, \<^verbatim>\<open>write\<close> reports
  failure and leaves the stream as that offer left it: no later component is offered, and
  the wire holds the components before it and the part of it that the stream took. The
  writer takes nothing back.
\<close>

theorem write_stops_at_first_short_write:
  "(fst (BinaryWriter_write dev P s brokerTypeId data) \<longleftrightarrow>
      (\<forall>k<length (components P brokerTypeId data).
         taken_whole dev (write_each dev s (take k (components P brokerTypeId data)))
           (components P brokerTypeId data ! k))) \<and>
   (fst (BinaryWriter_write dev P s brokerTypeId data) \<longrightarrow>
      snd (BinaryWriter_write dev P s brokerTypeId data) =
        write_each dev s (components P brokerTypeId data) \<and>
      wire (snd (BinaryWriter_write dev P s brokerTypeId data)) =
        wire s @ frame P brokerTypeId data) \<and>
   (\<forall>k<length (components P brokerTypeId data).
      (\<forall>j<k. taken_whole dev (write_each dev s (take j (components P brokerTypeId data)))
                (components P brokerTypeId data ! j)) \<and>
      \<not> taken_whole dev (write_each dev s (take k (components P brokerTypeId data)))
          (components P brokerTypeId data ! k) \<longrightarrow>
      BinaryWriter_write dev P s brokerTypeId data =
        (False, snd (OStream_write dev (write_each dev s (take k (components P brokerTypeId data)))
                       (components P brokerTypeId data ! k))) \<and>
      wire (snd (BinaryWriter_write dev P s brokerTypeId data)) =
        wire s @ concat (take k (components P brokerTypeId data)) @
        take (fst (OStream_write dev (write_each dev s (take k (components P brokerTypeId data)))
                     (components P brokerTypeId data ! k)))
          (components P brokerTypeId data ! k))"
proof -
  define cs where "cs = components P brokerTypeId data"
  have w: "BinaryWriter_write dev P s brokerTypeId data = write_until_short dev s cs"
    by (simp add: cs_def write_is_until_short)
  have 1: "fst (write_until_short dev s cs) \<longleftrightarrow>
      (\<forall>k<length cs. taken_whole dev (write_each dev s (take k cs)) (cs ! k))"
    by (rule until_short_success)
  have 2: "snd (write_until_short dev s cs) = write_each dev s cs \<and>
      wire (snd (write_until_short dev s cs)) = wire s @ frame P brokerTypeId data"
    if ok: "fst (write_until_short dev s cs)"
  proof -
    from ok 1 have "\<forall>j<length cs. taken_whole dev (write_each dev s (take j cs)) (cs ! j)"
      by simp
    from wire_write_each[OF le_refl this] until_short_all[OF ok]
    show ?thesis by (simp add: cs_def concat_components)
  qed
  have 3: "write_until_short dev s cs =
        (False, snd (OStream_write dev (write_each dev s (take k cs)) (cs ! k))) \<and>
      wire (snd (write_until_short dev s cs)) =
        wire s @ concat (take k cs) @
        take (fst (OStream_write dev (write_each dev s (take k cs)) (cs ! k))) (cs ! k)"
    if "k < length cs" "\<forall>j<k. taken_whole dev (write_each dev s (take j cs)) (cs ! j)"
      "\<not> taken_whole dev (write_each dev s (take k cs)) (cs ! k)" for k
  proof -
    from that(1) have "k \<le> length cs" by simp
    from until_short_stops[OF that] wire_write_each[OF this that(2)]
    show ?thesis by (simp add: wire_OStream_write)
  qed
  from 1 2 3 show ?thesis unfolding w cs_def[symmetric] by blast
qed

theorem write_stops_at_first_short_write_witness:
  "length (components DefaultSerialisation 100 [0xC3, 0xF5, 0x48, 0x40]) = 4 \<and>
   taken_whole all_or_nothing_device \<lparr>wire = [], device = 14\<rparr>
     (le32 (FourCC 0x53 0x55 0x42 0x30)) \<and>
   taken_whole all_or_nothing_device \<lparr>wire = le32 (FourCC 0x53 0x55 0x42 0x30), device = 10\<rparr>
     (Header_bytes (Header_ctor 100 4)) \<and>
   \<not> taken_whole all_or_nothing_device
       \<lparr>wire = le32 (FourCC 0x53 0x55 0x42 0x30) @ Header_bytes (Header_ctor 100 4), device = 2\<rparr>
       [0xC3, 0xF5, 0x48, 0x40] \<and>
   BinaryWriter_write all_or_nothing_device DefaultSerialisation \<lparr>wire = [], device = 14\<rparr> 100
       [0xC3, 0xF5, 0x48, 0x40] =
     (False, \<lparr>wire = [0x53, 0x55, 0x42, 0x30, 100, 0, 0, 0, 4, 0, 0, 0], device = 2\<rparr>) \<and>
   BinaryWriter_write all_or_nothing_device DefaultSerialisation \<lparr>wire = [], device = 17\<rparr> 100
       [0xC3, 0xF5, 0x48, 0x40] =
     (True, \<lparr>wire = frame DefaultSerialisation 100 [0xC3, 0xF5, 0x48, 0x40], device = 0\<rparr>)"
proof -
  let ?P = "DefaultSerialisation"
  let ?d = "[0xC3, 0xF5, 0x48, 0x40] :: byte list"
  let ?p = "le32 (FourCC 0x53 0x55 0x42 0x30)"
  let ?h = "Header_bytes (Header_ctor 100 4)"
  let ?s = "\<lparr>wire = [], device = 14 :: nat\<rparr>"
  let ?s' = "\<lparr>wire = [], device = 17 :: nat\<rparr>"
  have cs: "components ?P 100 ?d = [?p, ?h, ?d, [0x0A]]"
    by (simp add: components_def DefaultSerialisation_def Header_ctor_def)
  have lens: "length ?p = 4" "length ?h = 8"
    by (simp_all add: le32_def Header_bytes_def)
  have e0: "write_each all_or_nothing_device ?s [] = ?s"
    and e1: "write_each all_or_nothing_device ?s [?p] = \<lparr>wire = ?p, device = 10\<rparr>"
    and e2: "write_each all_or_nothing_device ?s [?p, ?h] = \<lparr>wire = ?p @ ?h, device = 2\<rparr>"
    by (simp_all add: write_each_def OStream_write_def all_or_nothing_device_def lens)
  have t0: "taken_whole all_or_nothing_device ?s ?p"
    and t1: "taken_whole all_or_nothing_device \<lparr>wire = ?p, device = 10\<rparr> ?h"
    and t2: "\<not> taken_whole all_or_nothing_device \<lparr>wire = ?p @ ?h, device = 2\<rparr> ?d"
    by (simp_all add: taken_whole_def OStream_write_def all_or_nothing_device_def lens)
  have before: "\<forall>j<2. taken_whole all_or_nothing_device
       (write_each all_or_nothing_device ?s (take j (components ?P 100 ?d)))
       (components ?P 100 ?d ! j)"
    using t0 t1 by (simp add: cs all_less_Suc numeral_2_eq_2 e0 e1)
  have short: "\<not> taken_whole all_or_nothing_device
       (write_each all_or_nothing_device ?s (take 2 (components ?P 100 ?d)))
       (components ?P 100 ?d ! 2)"
    using t2 by (simp add: cs e2)
  have k: "2 < length (components ?P 100 ?d)"
    by (simp add: cs)
  from write_stops_at_first_short_write[of all_or_nothing_device ?P ?s 100 ?d,
      THEN conjunct2, THEN conjunct2, rule_format, OF k, OF conjI[OF before short]]
  have "BinaryWriter_write all_or_nothing_device ?P ?s 100 ?d =
     (False, snd (OStream_write all_or_nothing_device \<lparr>wire = ?p @ ?h, device = 2\<rparr> ?d))"
    by (simp add: cs e2)
  then have A: "BinaryWriter_write all_or_nothing_device ?P ?s 100 ?d =
     (False, \<lparr>wire = [0x53, 0x55, 0x42, 0x30, 100, 0, 0, 0, 4, 0, 0, 0], device = 2\<rparr>)"
    by (simp add: OStream_write_def all_or_nothing_device_def le32_def FourCC_def
        Header_bytes_def Header_ctor_def)
  have e4: "write_each all_or_nothing_device ?s' [?p, ?h, ?d, [0x0A]] =
      \<lparr>wire = ?p @ ?h @ ?d @ [0x0A], device = 0\<rparr>"
    by (simp add: write_each_def OStream_write_def all_or_nothing_device_def lens)
  have fr: "frame ?P 100 ?d = ?p @ ?h @ ?d @ [0x0A]"
    by (simp add: frame_def DefaultSerialisation_def Header_ctor_def)
  have l4: "length [?p, ?h, ?d, [0x0A]] = Suc (Suc (Suc (Suc 0)))" by simp
  have all: "\<forall>k<length (components ?P 100 ?d). taken_whole all_or_nothing_device
       (write_each all_or_nothing_device ?s' (take k (components ?P 100 ?d)))
       (components ?P 100 ?d ! k)"
    unfolding cs l4 all_less_Suc
    by (simp add: write_each_def taken_whole_def OStream_write_def all_or_nothing_device_def lens)
  from write_stops_at_first_short_write[of all_or_nothing_device ?P ?s' 100 ?d, THEN conjunct1] all
  have ok: "fst (BinaryWriter_write all_or_nothing_device ?P ?s' 100 ?d)" by simp
  from write_stops_at_first_short_write[of all_or_nothing_device ?P ?s' 100 ?d,
      THEN conjunct2, THEN conjunct1, rule_format, OF ok]
  have "snd (BinaryWriter_write all_or_nothing_device ?P ?s' 100 ?d) =
      \<lparr>wire = frame ?P 100 ?d, device = 0\<rparr>"
    by (simp add: cs e4 fr)
  with ok have B: "BinaryWriter_write all_or_nothing_device ?P ?s' 100 ?d =
      (True, \<lparr>wire = frame ?P 100 ?d, device = 0\<rparr>)"
    by (cases "BinaryWriter_write all_or_nothing_device ?P ?s' 100 ?d") simp
  have len: "length (components ?P 100 ?d) = 4" by (simp add: cs)
  from len t0 t1 t2 A B show ?thesis by (intro conjI)
qed

text \<open>
  The claim as stated fails: a device with room for twelve bytes takes the prefix and the
  header, the write of the payload falls short, and the call that reports failure has left
  twelve bytes of a frame on the wire.
\<close>

theorem write_leaves_partial_frame_counterexample:
  "BinaryWriter_write bounded_device DefaultSerialisation \<lparr>wire = [], device = 12\<rparr> 100
      [0xC3, 0xF5, 0x48, 0x40] =
     (False, \<lparr>wire = [0x53, 0x55, 0x42, 0x30, 100, 0, 0, 0, 4, 0, 0, 0], device = 0\<rparr>)"
  by (simp add: BinaryWriter_write_def DefaultSerialisation_def utility_write_default_def
      utility_write_def OStream_write_def bounded_device_def Header_bytes_def Header_ctor_def
      le32_def FourCC_def)

section \<open>Properties of the BinaryReader\<close>

text \<open>
  Claim C10. On a reader as its constructor leaves it (with any directory registered), the
  first \<^verbatim>\<open>read\<close> returns true and takes no byte off the stream: the \<^verbatim>\<open>Prefix\<close> state
  with its empty buffer completes at once and the reader is in the \<^verbatim>\<open>Header\<close> state.
  The first bytes on the wire, the prefix of the first frame, are therefore never read as
  a prefix: the next \<^verbatim>\<open>stream.read\<close> stores them in \<^verbatim>\<open>header_\<close> and leaves
  \<^verbatim>\<open>prefix_\<close> as it was.
\<close>

theorem first_poll_reads_nothing:
  "read cpp_exceptions P
     \<lparr>reader = (BinaryReader_ctor P)\<lparr>dataBufferRegistery_' := reg\<rparr>,
      stream = bs, heap = mem, published = calls\<rparr> =
   (Inr True,
    \<lparr>reader = (BinaryReader_ctor P)
       \<lparr>dataBufferRegistery_' := reg,
        currentBuffer_' := \<lparr>buffer = Ptr Mem_header 0, bufferSize = sizeof_Header,
                            paddingSize = 0, publisher = 0\<rparr>,
        state_' := State_Header\<rparr>,
     stream = bs, heap = mem, published = calls\<rparr>) \<and>
   map_sum id (\<lambda>(c, more). (header_' (reader c), prefix_' (reader c), stream c))
     (read_block (snd (read cpp_exceptions P
        \<lparr>reader = (BinaryReader_ctor P)\<lparr>dataBufferRegistery_' := reg\<rparr>,
         stream = bs, heap = mem, published = calls\<rparr>))) =
   Inr (take sizeof_Header bs @ replicate (sizeof_Header - length bs) 0,
        Member_init (Prefix_t P), drop sizeof_Header bs)"
proof -
  let ?c = "\<lparr>reader = (BinaryReader_ctor P)\<lparr>dataBufferRegistery_' := reg\<rparr>,
      stream = bs, heap = mem, published = calls\<rparr>"
  let ?c' = "\<lparr>reader = (BinaryReader_ctor P)
       \<lparr>dataBufferRegistery_' := reg,
        currentBuffer_' := \<lparr>buffer = Ptr Mem_header 0, bufferSize = sizeof_Header,
                            paddingSize = 0, publisher = 0\<rparr>,
        state_' := State_Header\<rparr>,
     stream = bs, heap = mem, published = calls\<rparr>"
  have rb: "readBuffer cpp_exceptions P ?c = (Inr True, ?c')"
    by (simp add: readBuffer_def stateComplete_def checkStatusOfState_def getStateStatus_def
        BinaryReader_ctor_def Buffer_null_def findStateBuffer_def)
  have r: "read cpp_exceptions P ?c = (Inr True, ?c')"
    by (subst read.simps) (simp add: rb)
  have "read_block ?c' =
      Inr (?c'\<lparr>reader := (reader ?c')\<lparr>header_' := take sizeof_Header bs @ replicate (sizeof_Header - length bs) 0,
              currentBuffer_' := \<lparr>buffer = Ptr Mem_header (min sizeof_Header (length bs)),
                   bufferSize = sizeof_Header - min sizeof_Header (length bs),
                   paddingSize = 0, publisher = 0\<rparr>\<rparr>,
              stream := drop sizeof_Header bs\<rparr>, length bs < sizeof_Header)"
    by (auto simp: read_block_def Let_def poke_def BinaryReader_ctor_def min_def sizeof_Header_def)
  then show ?thesis
    unfolding r by (simp add: BinaryReader_ctor_def)
qed

text \<open>
  Claim C5 fails on the code. The first \<^verbatim>\<open>read\<close> of a reader returns true with nothing
  on the stream and no frame consumed, with or without a prefix in the protocol; and a
  reader of the default protocol that has just read a whole frame and published it
  returns false, since it goes on to wait for the prefix of the next frame.
\<close>

theorem read_true_without_frame:
  "summary (read True DefaultSerialisation (example_conf DefaultSerialisation)) =
     (Inr True, State_Header, [], []) \<and>
   summary (read True no_prefix (example_conf no_prefix)) = (Inr True, State_Header, [], []) \<and>
   summary (read True DefaultSerialisation
      (offer (snd (read True DefaultSerialisation (example_conf DefaultSerialisation)))
         (Header_bytes \<lparr>typeId = 100, dataBytes = 4\<rparr> @ [0xC3, 0xF5, 0x48, 0x40] @ [0x0A]))) =
     (Inr False, State_Prefix, [], [(1, [0xC3, 0xF5, 0x48, 0x40])])"
  by code_simp

text \<open>
  Claim C4 fails on the code. A reader in the \<^verbatim>\<open>SyncLost\<close> state returns true from the
  next \<^verbatim>\<open>read\<close> and is in the \<^verbatim>\<open>Header\<close> state again. And the failure of a check
  does not reach \<^verbatim>\<open>SyncLost\<close>: the exception for an unknown header leaves the state
  \<^verbatim>\<open>Data\<close>, and the \<^verbatim>\<open>read\<close> after it goes on to the \<^verbatim>\<open>Postfix\<close> state and
  returns false, reporting nothing.
\<close>

theorem sync_lost_resumes:
  "summary (read True no_prefix
     ((example_conf no_prefix)
        \<lparr>reader := (example_reader no_prefix)
           \<lparr>state_' := State_SyncLost,
            currentBuffer_' := \<lparr>buffer = Ptr Mem_postfix 1, bufferSize = 0, paddingSize = 0,
                                publisher = 1\<rparr>\<rparr>\<rparr>)) =
     (Inr True, State_Header, [], []) \<and>
   summary (read True no_prefix
      (offer (snd (read True no_prefix (example_conf no_prefix)))
         (Header_bytes \<lparr>typeId = 999, dataBytes = 4\<rparr>))) =
     (Inl (RuntimeError ''Sub0Pub - Data buffer is null, potential payload size mismatch or unrecognised Id''),
      State_Data, [], []) \<and>
   summary (then_read True no_prefix (read True no_prefix
      (offer (snd (read True no_prefix (example_conf no_prefix)))
         (Header_bytes \<lparr>typeId = 999, dataBytes = 4\<rparr>)))) =
     (Inr False, State_Postfix, [], [])"
  by code_simp

text \<open>
  Claim C1 fails on the code. The frame that the writer of the default protocol produces
  for a registered four-byte value, fed to a new reader in one piece or byte by byte, ends
  in the error for an unknown header and no \<^verbatim>\<open>publish()\<close> call: the reader takes the
  prefix and the \<^verbatim>\<open>typeId\<close> for the header. Without the prefix in the protocol the same
  value arrives.
\<close>

theorem default_round_trip_fails:
  "BinaryWriter_write bounded_device DefaultSerialisation \<lparr>wire = [], device = 64\<rparr> 100
     [0xC3, 0xF5, 0x48, 0x40] =
     (True, \<lparr>wire = frame DefaultSerialisation 100 [0xC3, 0xF5, 0x48, 0x40], device = 47\<rparr>) \<and>
   summary (feed True DefaultSerialisation (example_conf DefaultSerialisation)
     [frame DefaultSerialisation 100 [0xC3, 0xF5, 0x48, 0x40]]) =
     (Inl (RuntimeError ''Sub0Pub - Data buffer is null, potential payload size mismatch or unrecognised Id''),
      State_Data, [4, 0, 0, 0, 0xC3, 0xF5, 0x48, 0x40, 0x0A], []) \<and>
   summary (feed True DefaultSerialisation (example_conf DefaultSerialisation)
     (map (\<lambda>b. [b]) (frame DefaultSerialisation 100 [0xC3, 0xF5, 0x48, 0x40]))) =
     (Inl (RuntimeError ''Sub0Pub - Data buffer is null, potential payload size mismatch or unrecognised Id''),
      State_Data, [4, 0, 0, 0, 0xC3, 0xF5, 0x48, 0x40, 0x0A], []) \<and>
   summary (feed False DefaultSerialisation (example_conf DefaultSerialisation)
     [frame DefaultSerialisation 100 [0xC3, 0xF5, 0x48, 0x40]]) =
     (Inl AssertionFailure, State_Data, [4, 0, 0, 0, 0xC3, 0xF5, 0x48, 0x40, 0x0A], []) \<and>
   summary (feed True no_prefix (example_conf no_prefix)
     (map (\<lambda>b. [b]) (frame no_prefix 100 [0xC3, 0xF5, 0x48, 0x40]))) =
     (Inr False, State_Header, [], [(1, [0xC3, 0xF5, 0x48, 0x40])])"
  by code_simp

text \<open>
  Claim C3 fails on the code. Two frames that the writer of the default protocol produces
  for a registered type are fed to a new reader: the first ends in the error for an
  unknown header, reading on ends in the postfix error, and \<^verbatim>\<open>publish()\<close> is called for
  neither frame. And a reader that has read one frame and awaits the next in the
  \<^verbatim>\<open>Prefix\<close> state takes a frame whose prefix bytes are all zero for a good one: it calls
  \<^verbatim>\<open>publish()\<close> and reports nothing, since \<^verbatim>\<open>getStateStatus\<close> does not compare the
  prefix.
\<close>

theorem publish_missed_or_unvalidated:
  "summary (feed True DefaultSerialisation (example_conf DefaultSerialisation)
     [frame DefaultSerialisation 100 [0xC3, 0xF5, 0x48, 0x40],
      frame DefaultSerialisation 100 [1, 2, 3, 4]]) =
     (Inl (RuntimeError ''Sub0Pub - Data buffer is null, potential payload size mismatch or unrecognised Id''),
      State_Data,
      [4, 0, 0, 0, 0xC3, 0xF5, 0x48, 0x40, 0x0A,
       0x53, 0x55, 0x42, 0x30, 100, 0, 0, 0, 4, 0, 0, 0, 1, 2, 3, 4, 0x0A],
      []) \<and>
   summary (drain True DefaultSerialisation
     (snd (feed True DefaultSerialisation (example_conf DefaultSerialisation)
        [frame DefaultSerialisation 100 [0xC3, 0xF5, 0x48, 0x40],
         frame DefaultSerialisation 100 [1, 2, 3, 4]]))) =
     (Inl (RuntimeError ''Binary-Postfix mismatch - stream corruption or incompatible data-stream''),
      State_Postfix,
      [0, 0, 0, 0xC3, 0xF5, 0x48, 0x40, 0x0A,
       0x53, 0x55, 0x42, 0x30, 100, 0, 0, 0, 4, 0, 0, 0, 1, 2, 3, 4, 0x0A],
      []) \<and>
   summary (Inr False, example_awaiting) =
     (Inr False, State_Prefix, [], [(1, [0xC3, 0xF5, 0x48, 0x40])]) \<and>
   summary (feed True DefaultSerialisation example_awaiting
     [[0, 0, 0, 0] @ Header_bytes (Header_ctor 100 4) @ [1, 2, 3, 4] @ [0x0A]]) =
     (Inr False, State_Prefix, [], [(1, [0xC3, 0xF5, 0x48, 0x40]), (1, [1, 2, 3, 4])])"
  by code_simp


section \<open>The reader over a chunked stream\<close>

text \<open>
  \<^verbatim>\<open>readBuffer\<close>, \<^verbatim>\<open>read\<close> and the repetition of \<^verbatim>\<open>read\<close> do the same with the bytes
  of a stream whether these arrive at once or in pieces: bytes that arrive after a call
  has returned false are read by the next call as they would have been by that one.
\<close>

lemma poke_Nil [simp]: "poke m off [] = m"
  by (simp add: poke_def)

lemma poke_poke: "poke (poke m off xs) (off + length xs) zs = poke m off (xs @ zs)"
  by (cases "off \<le> length m") (auto simp: poke_def min_def ac_simps)

lemma store_Nil [simp]: "store c p [] = c"
  by (cases "(c, p, []::byte list)" rule: store.cases) simp_all

lemma ptr_add_0 [simp]: "ptr_add p 0 = p"
  by (cases p) simp_all

lemma ptr_add_add [simp]: "ptr_add (ptr_add p a) b = ptr_add p (a + b)"
  by (cases p) simp_all

lemma ptr_add_Null [simp]: "ptr_add p n = Null \<longleftrightarrow> p = Null"
  by (cases p) simp_all

lemma store_store:
  "store (store c p xs) (ptr_add p (length xs)) zs = store c p (xs @ zs)"
  by (cases "(c, p, xs)" rule: store.cases) (simp_all add: poke_poke)

lemma store_offer: "store (offer c ys) p bs = offer (store c p bs) ys"
  by (cases "(c, p, bs)" rule: store.cases) (simp_all add: offer_def)

lemma store_proj [simp]:
  "dataBufferRegistery_' (reader (store c p bs)) = dataBufferRegistery_' (reader c)"
  "state_' (reader (store c p bs)) = state_' (reader c)"
  by (cases "(c, p, bs)" rule: store.cases; simp)+

lemma offer_simps [simp]:
  "stream (offer c ys) = stream c @ ys"
  "reader (offer c ys) = reader c"
  "heap (offer c ys) = heap c"
  "published (offer c ys) = published c"
  "offer c [] = c"
  "offer (offer c xs) ys = offer c (xs @ ys)"
  by (simp_all add: offer_def)

lemma read_block_eq:
  "read_block c =
     (if 0 < min (bufferSize (currentBuffer_' (reader c))) (length (stream c)) \<and>
         buffer (currentBuffer_' (reader c)) = Null
      then Inl NullWrite
      else Inr (after_read c (min (bufferSize (currentBuffer_' (reader c))) (length (stream c))),
                length (stream c) < bufferSize (currentBuffer_' (reader c))))"
  by (auto simp: read_block_def after_read_def Let_def min_def)

lemma ignore_block_eq:
  "ignore_block c =
     (after_ignore c (min (paddingSize (currentBuffer_' (reader c))) (length (stream c))),
      length (stream c) < paddingSize (currentBuffer_' (reader c)))"
  by (auto simp: ignore_block_def after_ignore_def Let_def min_def)

lemma after_read_proj [simp]:
  "stream (after_read c k) = drop k (stream c)"
  "published (after_read c k) = published c"
  "state_' (reader (after_read c k)) = state_' (reader c)"
  "dataBufferRegistery_' (reader (after_read c k)) = dataBufferRegistery_' (reader c)"
  "currentBuffer_' (reader (after_read c k)) =
     (currentBuffer_' (reader c))\<lparr>buffer := ptr_add (buffer (currentBuffer_' (reader c))) k,
        bufferSize := bufferSize (currentBuffer_' (reader c)) - k\<rparr>"
  by (simp_all add: after_read_def Let_def)

lemma after_ignore_proj [simp]:
  "stream (after_ignore c k) = drop k (stream c)"
  "published (after_ignore c k) = published c"
  "heap (after_ignore c k) = heap c"
  "state_' (reader (after_ignore c k)) = state_' (reader c)"
  "dataBufferRegistery_' (reader (after_ignore c k)) = dataBufferRegistery_' (reader c)"
  "currentBuffer_' (reader (after_ignore c k)) =
     (currentBuffer_' (reader c))\<lparr>paddingSize := paddingSize (currentBuffer_' (reader c)) - k\<rparr>"
  by (simp_all add: after_ignore_def)

lemma after_read_offer:
  "k \<le> length (stream c) \<Longrightarrow> after_read (offer c ys) k = offer (after_read c k) ys"
  by (simp add: after_read_def Let_def store_offer)

lemma after_read_0 [simp]: "after_read c 0 = c"
  by (simp add: after_read_def)

lemma after_ignore_0 [simp]: "after_ignore c 0 = c"
  by (simp add: after_ignore_def)

lemma after_read_after_read:
  "a \<le> length (stream c) \<Longrightarrow> after_read (after_read c a) b = after_read c (a + b)"
proof -
  assume a: "a \<le> length (stream c)"
  have pk: "poke (poke m off (take a (stream c))) (off + a) (take b (drop a (stream c)))
          = poke m off (take (a + b) (stream c))" for m off
  proof -
    have "length (take a (stream c)) = a" using a by simp
    with poke_poke[of m off "take a (stream c)" "take b (drop a (stream c))"]
    show ?thesis by (simp only: take_add)
  qed
  have dd: "drop (b + a) (stream c) = drop (a + b) (stream c)"
    by (simp add: add.commute)
  show ?thesis
  proof (cases "buffer (currentBuffer_' (reader c))")
    case Null
    then show ?thesis by (simp add: after_read_def Let_def dd)
  next
    case (Ptr r off)
    then show ?thesis
      by (cases r) (simp_all add: after_read_def Let_def pk dd)
  qed
qed

lemma after_ignore_offer:
  "k \<le> length (stream c) \<Longrightarrow> after_ignore (offer c ys) k = offer (after_ignore c k) ys"
  by (simp add: after_ignore_def offer_def)

lemma after_ignore_after_ignore:
  "after_ignore (after_ignore c a) b = after_ignore c (a + b)"
  by (simp add: after_ignore_def ac_simps)

lemma read_block_offer:
  "read_block (offer c ys) =
     (case read_block c of
        Inl e \<Rightarrow> Inl e
      | Inr (c1, True) \<Rightarrow> read_block (offer c1 ys)
      | Inr (c1, False) \<Rightarrow> Inr (offer c1 ys, False))"
proof (cases "length (stream c) < bufferSize (currentBuffer_' (reader c))")
  case True
  let ?n = "bufferSize (currentBuffer_' (reader c))" and ?xs = "stream c"
  have m1: "min ?n (length ?xs) = length ?xs"
    and m2: "min ?n (length ?xs + length ys) = length ?xs + min (?n - length ?xs) (length ys)"
    using True by (auto simp: min_def)
  have comp: "after_read (offer (after_read c (length ?xs)) ys) j = after_read (offer c ys) (length ?xs + j)" for j
    by (simp add: after_read_offer[symmetric] after_read_after_read)
  show ?thesis
    using True
    by (auto simp: read_block_eq m1 m2 comp)
next
  case False
  then have m1: "min (bufferSize (currentBuffer_' (reader c))) (length (stream c)) = bufferSize (currentBuffer_' (reader c))"
    and m2: "min (bufferSize (currentBuffer_' (reader c))) (length (stream c) + length ys) = bufferSize (currentBuffer_' (reader c))"
    by (auto simp: min_def)
  show ?thesis
    using False by (auto simp: read_block_eq m1 m2 after_read_offer)
qed

lemma ignore_block_offer:
  "ignore_block (offer c ys) =
     (case ignore_block c of
        (c1, True) \<Rightarrow> ignore_block (offer c1 ys)
      | (c1, False) \<Rightarrow> (offer c1 ys, False))"
proof (cases "length (stream c) < paddingSize (currentBuffer_' (reader c))")
  case True
  let ?n = "paddingSize (currentBuffer_' (reader c))" and ?xs = "stream c"
  have m1: "min ?n (length ?xs) = length ?xs"
    and m2: "min ?n (length ?xs + length ys) = length ?xs + min (?n - length ?xs) (length ys)"
    using True by (auto simp: min_def)
  have comp: "after_ignore (offer (after_ignore c (length ?xs)) ys) j = after_ignore (offer c ys) (length ?xs + j)" for j
    by (simp add: after_ignore_offer[symmetric] after_ignore_after_ignore)
  show ?thesis
    using True
    by (auto simp: ignore_block_eq m1 m2 comp)
next
  case False
  then have m1: "min (paddingSize (currentBuffer_' (reader c))) (length (stream c)) = paddingSize (currentBuffer_' (reader c))"
    and m2: "min (paddingSize (currentBuffer_' (reader c))) (length (stream c) + length ys) = paddingSize (currentBuffer_' (reader c))"
    by (auto simp: min_def)
  show ?thesis
    using False by (auto simp: ignore_block_eq m1 m2 after_ignore_offer)
qed

lemma stateComplete_never_False: "stateComplete ex P c \<noteq> (Inr False, c')"
  by (auto simp: stateComplete_def checkStatusOfState_def Let_def
      split: sum.splits bool.splits prod.splits if_splits)

lemma stateComplete_offer:
  "stateComplete ex P (offer c ys) = (case stateComplete ex P c of (r, c') \<Rightarrow> (r, offer c' ys))"
  by (auto simp: stateComplete_def Let_def offer_def
      split: sum.splits bool.splits prod.splits)

lemma read_block_flag:
  "read_block c = Inr (c1, again) \<Longrightarrow>
     again = (0 < bufferSize (currentBuffer_' (reader c1))) \<and>
     paddingSize (currentBuffer_' (reader c1)) = paddingSize (currentBuffer_' (reader c))"
  by (auto simp: read_block_eq split: if_splits)

lemma ignore_block_flag:
  "ignore_block c = (c1, again) \<Longrightarrow>
     again = (0 < paddingSize (currentBuffer_' (reader c1))) \<and>
     bufferSize (currentBuffer_' (reader c1)) = bufferSize (currentBuffer_' (reader c))"
  by (auto simp: ignore_block_eq)

lemma readBuffer_alt:
  "readBuffer ex P c =
     (case (if 0 < bufferSize (currentBuffer_' (reader c)) then read_block c else Inr (c, False)) of
        Inl e \<Rightarrow> (Inl e, c)
      | Inr (c1, True) \<Rightarrow> (Inr False, c1)
      | Inr (c1, False) \<Rightarrow> pad_then_complete ex P c1)"
  by (simp add: readBuffer_def pad_then_complete_def split: sum.splits prod.splits bool.splits)

lemma readBuffer_no_buffer:
  "bufferSize (currentBuffer_' (reader c)) = 0 \<Longrightarrow> readBuffer ex P c = pad_then_complete ex P c"
  by (simp add: readBuffer_alt)

lemma pad_then_complete_offer:
  "pad_then_complete ex P (offer c ys) =
     (case pad_then_complete ex P c of
        (Inr False, c') \<Rightarrow> pad_then_complete ex P (offer c' ys)
      | (r, c') \<Rightarrow> (r, offer c' ys))"
proof (cases "0 < paddingSize (currentBuffer_' (reader c))")
  case False
  then have "pad_then_complete ex P c = stateComplete ex P c"
    "pad_then_complete ex P (offer c ys) = stateComplete ex P (offer c ys)"
    by (simp_all add: pad_then_complete_def)
  then show ?thesis
    using stateComplete_never_False[of ex P c]
    by (auto simp: stateComplete_offer split: prod.splits sum.splits bool.splits)
next
  case True
  obtain c1 again where ib: "ignore_block c = (c1, again)" by (cases "ignore_block c")
  note fl = ignore_block_flag[OF ib]
  show ?thesis
  proof (cases again)
    case True
    have "pad_then_complete ex P (offer c1 ys) =
       (case ignore_block (offer c1 ys) of (c2, True) \<Rightarrow> (Inr False, c2)
          | (c2, False) \<Rightarrow> stateComplete ex P c2)"
      using True fl by (simp add: pad_then_complete_def)
    then show ?thesis
      using True \<open>0 < paddingSize (currentBuffer_' (reader c))\<close> ib
      by (simp add: pad_then_complete_def ignore_block_offer[of c ys])
  next
    case False
    then show ?thesis
      using \<open>0 < paddingSize (currentBuffer_' (reader c))\<close> ib stateComplete_never_False[of ex P c1]
      by (auto simp: pad_then_complete_def ignore_block_offer[of c ys] stateComplete_offer
          split: prod.splits sum.splits bool.splits)
  qed
qed

lemma pad_then_complete_buffer:
  "pad_then_complete ex P c = (Inr False, c') \<Longrightarrow>
     bufferSize (currentBuffer_' (reader c')) = bufferSize (currentBuffer_' (reader c))"
  using stateComplete_never_False[of ex P]
  by (auto simp: pad_then_complete_def split: if_splits prod.splits bool.splits
      dest: ignore_block_flag)

lemma readBuffer_offer:
  "readBuffer ex P (offer c ys) =
     (case readBuffer ex P c of
        (Inr False, c') \<Rightarrow> readBuffer ex P (offer c' ys)
      | (r, c') \<Rightarrow> (r, offer c' ys))"
proof (cases "0 < bufferSize (currentBuffer_' (reader c))")
  case False
  then have z: "bufferSize (currentBuffer_' (reader c)) = 0" by simp
  have "readBuffer ex P (offer c' ys) = pad_then_complete ex P (offer c' ys)"
    if "pad_then_complete ex P c = (Inr False, c')" for c'
    using pad_then_complete_buffer[OF that] z by (simp add: readBuffer_alt)
  then show ?thesis
    using z by (auto simp: readBuffer_alt pad_then_complete_offer[of ex P c ys] split: prod.splits sum.splits bool.splits)
next
  case True
  show ?thesis
  proof (cases "read_block c")
    case (Inl e)
    then show ?thesis using True by (simp add: readBuffer_alt read_block_offer[of c ys])
  next
    case (Inr p)
    obtain c1 again where p: "p = (c1, again)" by (cases p)
    note fl = read_block_flag[OF Inr[unfolded p]]
    show ?thesis
    proof (cases again)
      case True
      with fl have pos: "0 < bufferSize (currentBuffer_' (reader c1))" by simp
      have same: "c1 = c" if "read_block (offer c1 ys) = Inl e" for e
      proof -
        from that have "buffer (currentBuffer_' (reader c1)) = Null"
          by (auto simp: read_block_eq split: if_splits)
        with Inr[unfolded p] show ?thesis
          by (auto simp: read_block_eq split: if_splits)
      qed
      show ?thesis
        using True \<open>0 < bufferSize (currentBuffer_' (reader c))\<close> Inr p pos same
        by (auto simp: readBuffer_alt read_block_offer[of c ys] split: sum.splits)
    next
      case False
      with fl have z1: "bufferSize (currentBuffer_' (reader c1)) = 0" by simp
      have "readBuffer ex P (offer c' ys) = pad_then_complete ex P (offer c' ys)"
        if "pad_then_complete ex P c1 = (Inr False, c')" for c'
        using pad_then_complete_buffer[OF that] z1 by (simp add: readBuffer_alt)
      then show ?thesis
        using False True Inr p
        by (auto simp: readBuffer_alt read_block_offer[of c ys] pad_then_complete_offer[of ex P c1 ys]
            split: prod.splits sum.splits bool.splits)
    qed
  qed
qed

lemma read_offer:
  "read ex P (offer c ys) =
     (case read ex P c of
        (Inr False, c') \<Rightarrow> read ex P (offer c' ys)
      | (r, c') \<Rightarrow> (r, offer c' ys))"
proof (induction ex P c rule: read.induct)
  case (1 ex P c)
  obtain r c1 where rb: "readBuffer ex P c = (r, c1)" by (cases "readBuffer ex P c")
  show ?case
  proof (cases r)
    case (Inl e)
    then show ?thesis
      using rb readBuffer_offer[of ex P c ys]
      by (subst (1 2) read.simps) simp
  next
    case (Inr b)
    show ?thesis
    proof (cases b)
      case False
      have "read ex P (offer c ys) =
            (case readBuffer ex P (offer c1 ys) of
               (Inr True, c') \<Rightarrow>
                 if state_' (reader c') = State_Header then (Inr True, c') else read ex P c'
             | (Inr False, c') \<Rightarrow> (Inr False, c')
             | (Inl e, c') \<Rightarrow> (Inl e, c'))"
        using rb Inr False readBuffer_offer[of ex P c ys]
        by (subst read.simps) simp
      also have "\<dots> = read ex P (offer c1 ys)"
        by (subst (2) read.simps) simp
      finally show ?thesis
        using rb Inr False by (subst (2) read.simps) simp
    next
      case True
      have rbo: "readBuffer ex P (offer c ys) = (Inr True, offer c1 ys)"
        using rb Inr True readBuffer_offer[of ex P c ys] by simp
      show ?thesis
      proof (cases "state_' (reader c1) = State_Header")
        case h: True
        then show ?thesis
          using rb rbo Inr True by (subst (1 2) read.simps) simp
      next
        case h: False
        have l: "read ex P (offer c ys) = read ex P (offer c1 ys)"
          using rbo h by (subst read.simps) simp
        have r: "read ex P c = read ex P c1"
          using rb Inr True h by (subst read.simps) simp
        from "1.IH"[OF rb[symmetric] Inr eqTrueI[OF True] h] show ?thesis
          unfolding l r .
      qed
    qed
  qed
qed

lemma drain_offer:
  "drain ex P (offer c ys) =
     (case drain ex P c of
        (Inr False, c') \<Rightarrow> drain ex P (offer c' ys)
      | (r, c') \<Rightarrow> (r, offer c' ys))"
proof (induction ex P c rule: drain.induct)
  case (1 ex P c)
  obtain r c1 where rd: "read ex P c = (r, c1)" by (cases "read ex P c")
  show ?case
  proof (cases r)
    case (Inl e)
    then show ?thesis
      using rd read_offer[of ex P c ys] by (subst (1 2) drain.simps) simp
  next
    case (Inr b)
    show ?thesis
    proof (cases b)
      case False
      have "drain ex P (offer c ys) =
            (case read ex P (offer c1 ys) of
               (Inr True, c') \<Rightarrow> drain ex P c'
             | (Inr False, c') \<Rightarrow> (Inr False, c')
             | (Inl e, c') \<Rightarrow> (Inl e, c'))"
        using rd Inr False read_offer[of ex P c ys] by (subst drain.simps) simp
      also have "\<dots> = drain ex P (offer c1 ys)"
        by (subst (2) drain.simps) simp
      finally show ?thesis
        using rd Inr False by (subst (2) drain.simps) simp
    next
      case True
      have l: "drain ex P (offer c ys) = drain ex P (offer c1 ys)"
        using rd Inr True read_offer[of ex P c ys] by (subst drain.simps) simp
      have r: "drain ex P c = drain ex P c1"
        using rd Inr True by (subst drain.simps) simp
      from "1.IH"[OF rd[symmetric] Inr eqTrueI[OF True]] show ?thesis
        unfolding l r .
    qed
  qed
qed

lemma drain_never_True: "drain ex P c \<noteq> (Inr True, c')"
proof (induction ex P c rule: drain.induct)
  case (1 ex P c)
  obtain r c1 where rd: "read ex P c = (r, c1)" by (cases "read ex P c")
  show ?case
    using rd "1.IH"[OF rd[symmetric]]
    by (subst drain.simps) (auto split: sum.splits bool.splits)
qed

lemma drain_at_rest:
  assumes "drain ex P c = (Inr False, c')"
  shows "drain ex P c' = (Inr False, c')"
  using drain_offer[of ex P c "[]"] assms by simp

lemma feed_concat:
  assumes "drain ex P c = (Inr False, c)"
  shows "feed ex P c chunks = drain ex P (offer c (concat chunks))"
  using assms
proof (induction chunks arbitrary: c)
  case Nil
  then show ?case by simp
next
  case (Cons chunk chunks)
  obtain r c1 where d: "drain ex P (offer c chunk) = (r, c1)"
    by (cases "drain ex P (offer c chunk)")
  have whole: "drain ex P (offer c (chunk @ concat chunks)) =
      (case drain ex P (offer c chunk) of
        (Inr False, c') \<Rightarrow> drain ex P (offer c' (concat chunks))
      | (r, c') \<Rightarrow> (r, offer c' (concat chunks)))"
    using drain_offer[of ex P "offer c chunk" "concat chunks"] by simp
  show ?case
  proof (cases r)
    case (Inl e)
    then show ?thesis using d whole by simp
  next
    case (Inr b)
    with d drain_never_True[of ex P "offer c chunk" c1] have b: "\<not> b" by auto
    from d Inr b have d': "drain ex P (offer c chunk) = (Inr False, c1)" by simp
    from Cons.IH[OF drain_at_rest[OF d']] d' whole show ?thesis by simp
  qed
qed

lemma stateComplete_published:
  "stateComplete ex P c = (r, c') \<Longrightarrow> \<exists>calls. published c' = published c @ calls"
  by (auto simp: stateComplete_def Let_def split: sum.splits bool.splits prod.splits if_splits)

lemma readBuffer_published:
  assumes "readBuffer ex P c = (r, c')"
  shows "\<exists>calls. published c' = published c @ calls"
proof -
  have rb: "read_block c = Inr (c1, b) \<Longrightarrow> published c1 = published c" for c1 b
    by (auto simp: read_block_eq split: if_splits)
  have ib: "ignore_block c1 = (c2, b) \<Longrightarrow> published c2 = published c1" for c1 c2 b
    by (auto simp: ignore_block_eq)
  show ?thesis
    using assms
    by (auto simp: readBuffer_def split: sum.splits prod.splits bool.splits if_splits
        dest!: rb ib stateComplete_published)
qed

lemma read_published:
  "read ex P c = (r, c') \<Longrightarrow> \<exists>calls. published c' = published c @ calls"
proof (induction ex P c rule: read.induct)
  case (1 ex P c)
  obtain r1 c1 where rb: "readBuffer ex P c = (r1, c1)" by (cases "readBuffer ex P c")
  from readBuffer_published[OF rb] obtain calls1 where p1: "published c1 = published c @ calls1" ..
  show ?case
  proof (cases "r1 = Inr True \<and> state_' (reader c1) \<noteq> State_Header")
    case True
    then have "read ex P c = read ex P c1"
      using rb by (subst read.simps) simp
    with "1.prems" "1.IH"[OF rb[symmetric], of True] True p1 show ?thesis by auto
  next
    case False
    then have "read ex P c = (r1, c1)"
      using rb by (subst read.simps) (auto split: sum.splits bool.splits)
    with "1.prems" p1 show ?thesis by auto
  qed
qed

lemma drain_published:
  "drain ex P c = (r, c') \<Longrightarrow> \<exists>calls. published c' = published c @ calls"
proof (induction ex P c rule: drain.induct)
  case (1 ex P c)
  obtain r1 c1 where rd: "read ex P c = (r1, c1)" by (cases "read ex P c")
  from read_published[OF rd] obtain calls1 where p1: "published c1 = published c @ calls1" ..
  show ?case
  proof (cases "r1 = Inr True")
    case True
    then have "drain ex P c = drain ex P c1"
      using rd by (subst drain.simps) simp
    with "1.prems" "1.IH"[OF rd[symmetric], of True] True p1 show ?thesis by auto
  next
    case False
    then have "drain ex P c = (r1, c1)"
      using rd by (subst drain.simps) (auto split: sum.splits bool.splits)
    with "1.prems" p1 show ?thesis by auto
  qed
qed

lemma drain_published_mono:
  assumes "drain ex P (offer c (xs @ ys)) = (r, c')" "published c' = published c"
  shows "published (snd (drain ex P (offer c xs))) = published c"
proof -
  obtain r1 c1 where d1: "drain ex P (offer c xs) = (r1, c1)" by (cases "drain ex P (offer c xs)")
  from drain_published[OF d1] obtain calls1 where p1: "published c1 = published c @ calls1" by auto
  have "\<exists>calls2. published c' = published c1 @ calls2"
  proof (cases "r1 = Inr False")
    case True
    with drain_offer[of ex P "offer c xs" ys] d1 assms(1)
    have "drain ex P (offer c1 ys) = (r, c')" by simp
    from drain_published[OF this] show ?thesis by simp
  next
    case False
    with drain_offer[of ex P "offer c xs" ys] d1 assms(1)
    have "c' = offer c1 ys" by (auto split: sum.splits bool.splits)
    then show ?thesis by simp
  qed
  with p1 assms(2) d1 show ?thesis by auto
qed

lemma le32_decode_le32: "le32_decode (le32 w @ rest) = w"
  unfolding le32_def le32_decode_def
proof (rule bit_word_eqI)
  fix n assume "n < LENGTH(32)"
  then have n: "n < 32" by simp
  consider "n < 8" | "8 \<le> n" "n < 16" | "16 \<le> n" "n < 24" | "24 \<le> n" "n < 32"
    using n by linarith
  then show "bit (ucast (([ucast w, ucast (drop_bit 8 w), ucast (drop_bit 16 w),
      ucast (drop_bit 24 w)] @ rest) ! 0 :: 8 word) OR
    push_bit 8 (ucast (([ucast w, ucast (drop_bit 8 w), ucast (drop_bit 16 w),
      ucast (drop_bit 24 w)] @ rest) ! 1 :: 8 word)) OR
    push_bit 16 (ucast (([ucast w, ucast (drop_bit 8 w), ucast (drop_bit 16 w),
      ucast (drop_bit 24 w)] @ rest) ! 2 :: 8 word)) OR
    push_bit 24 (ucast (([ucast w, ucast (drop_bit 8 w), ucast (drop_bit 16 w),
      ucast (drop_bit 24 w)] @ rest) ! 3 :: 8 word)) :: 32 word) n = bit w n"
    by cases (auto simp: bit_simps)
qed

lemma length_le32 [simp]: "length (le32 w) = 4"
  by (simp add: le32_def)

lemma length_Header_bytes [simp]: "length (Header_bytes h) = 8"
  by (simp add: Header_bytes_def)

lemma Header_of_bytes_Header_bytes: "Header_of_bytes (Header_bytes h @ rest) = h"
  using le32_decode_le32[of "typeId h" "[]"] le32_decode_le32[of "dataBytes h" "[]"]
  by (simp add: Header_of_bytes_def Header_bytes_def)

lemma after_read_heap:
  "heap (after_read c k) =
     (case buffer (currentBuffer_' (reader c)) of
        Ptr (Mem_extern a) off \<Rightarrow> (heap c)(a := poke (heap c a) off (take k (stream c)))
      | _ \<Rightarrow> heap c)"
  by (cases "buffer (currentBuffer_' (reader c))"; simp add: after_read_def Let_def split: region.splits)

lemma after_read_header:
  "header_' (reader (after_read c k)) =
     (case buffer (currentBuffer_' (reader c)) of
        Ptr Mem_header off \<Rightarrow> poke (header_' (reader c)) off (take k (stream c))
      | _ \<Rightarrow> header_' (reader c))"
  by (cases "buffer (currentBuffer_' (reader c))"; simp add: after_read_def Let_def split: region.splits)

lemma after_read_postfix:
  "postfix_' (reader (after_read c k)) =
     (case buffer (currentBuffer_' (reader c)) of
        Ptr Mem_postfix off \<Rightarrow> poke (postfix_' (reader c)) off (take k (stream c))
      | _ \<Rightarrow> postfix_' (reader c))"
  by (cases "buffer (currentBuffer_' (reader c))"; simp add: after_read_def Let_def split: region.splits)

lemma after_ignore_reader [simp]:
  "header_' (reader (after_ignore c k)) = header_' (reader c)"
  "postfix_' (reader (after_ignore c k)) = postfix_' (reader c)"
  by (simp_all add: after_ignore_def)

lemma readBuffer_enough:
  assumes "bufferSize (currentBuffer_' (reader c)) + paddingSize (currentBuffer_' (reader c))
             \<le> length (stream c)"
    and "buffer (currentBuffer_' (reader c)) \<noteq> Null"
  shows "readBuffer ex P c =
           stateComplete ex P
             (after_ignore (after_read c (bufferSize (currentBuffer_' (reader c))))
                (paddingSize (currentBuffer_' (reader c))))"
  using assms
  by (auto simp: readBuffer_def read_block_eq ignore_block_eq min_def)

lemma stateComplete_proj:
  assumes "stateComplete ex P c = (r, c')"
  shows "heap c' = heap c \<and> stream c' = stream c \<and>
         dataBufferRegistery_' (reader c') = dataBufferRegistery_' (reader c) \<and>
         header_' (reader c') = header_' (reader c) \<and>
         postfix_' (reader c') = postfix_' (reader c)"
  using assms
  by (auto simp: stateComplete_def Let_def split: sum.splits bool.splits prod.splits if_splits)

lemma step_header:
  assumes "state_' (reader c) = State_Header"
    and "currentBuffer_' (reader c) = header_buffer"
    and "stream c = Header_bytes h @ rest"
    and "BufferRegister_find (dataBufferRegistery_' (reader c)) h = buf"
    and "buffer buf \<noteq> Null"
  shows "\<exists>c1. readBuffer ex P c = (Inr True, c1) \<and>
           state_' (reader c1) = State_Data \<and> currentBuffer_' (reader c1) = buf \<and>
           stream c1 = rest \<and> heap c1 = heap c \<and> published c1 = published c \<and>
           dataBufferRegistery_' (reader c1) = dataBufferRegistery_' (reader c) \<and>
           postfix_' (reader c1) = postfix_' (reader c)"
proof -
  let ?c0 = "after_ignore (after_read c sizeof_Header) 0"
  have rb: "readBuffer ex P c = stateComplete ex P ?c0"
    using assms(2,3) readBuffer_enough[of c ex P]
    by (simp add: header_buffer_def sizeof_Header_def)
  have hd: "Header_of_bytes (header_' (reader ?c0)) = h"
    using assms(2,3) Header_of_bytes_Header_bytes[of h "drop 8 (header_' (reader c))"]
    by (simp add: after_read_header header_buffer_def sizeof_Header_def poke_def)
  obtain r c1 where sc: "stateComplete ex P ?c0 = (r, c1)" by (cases "stateComplete ex P ?c0")
  from stateComplete_proj[OF sc] assms(2,3)
  have pr: "heap c1 = heap c" "stream c1 = rest"
    "dataBufferRegistery_' (reader c1) = dataBufferRegistery_' (reader c)"
    "postfix_' (reader c1) = postfix_' (reader c)"
    by (simp_all add: after_read_heap after_read_postfix header_buffer_def sizeof_Header_def)
  from sc hd assms(1,4,5)
  have "r = Inr True \<and> state_' (reader c1) = State_Data \<and> currentBuffer_' (reader c1) = buf \<and>
        published c1 = published c"
    by (auto simp: stateComplete_def checkStatusOfState_def getStateStatus_def
        BufferRegister_validate_def findStateBuffer_def Let_def)
  with rb sc pr show ?thesis by simp
qed

lemma step_data:
  assumes "state_' (reader c) = State_Data"
    and "currentBuffer_' (reader c) = buf"
    and "buffer buf = Ptr (Mem_extern k) off"
    and "stream c = payload @ pad @ rest"
    and "length payload = bufferSize buf" "length pad = paddingSize buf"
    and "Postfix_t P = Some post"
  shows "\<exists>c2. readBuffer ex P c = (Inr True, c2) \<and>
           state_' (reader c2) = State_Postfix \<and>
           currentBuffer_' (reader c2) =
             \<lparr>buffer = Ptr Mem_postfix 0, bufferSize = length post, paddingSize = 0,
              publisher = publisher buf\<rparr> \<and>
           stream c2 = rest \<and> heap c2 = (heap c)(k := poke (heap c k) off payload) \<and>
           published c2 = published c \<and>
           postfix_' (reader c2) = postfix_' (reader c) \<and>
           dataBufferRegistery_' (reader c2) = dataBufferRegistery_' (reader c)"
proof -
  let ?c0 = "after_ignore (after_read c (bufferSize buf)) (paddingSize buf)"
  have rb: "readBuffer ex P c = stateComplete ex P ?c0"
    using assms(2-6) readBuffer_enough[of c ex P] by simp
  obtain r c2 where sc: "stateComplete ex P ?c0 = (r, c2)" by (cases "stateComplete ex P ?c0")
  from stateComplete_proj[OF sc] assms(2-6)
  have pr: "heap c2 = (heap c)(k := poke (heap c k) off payload)" "stream c2 = rest"
    "postfix_' (reader c2) = postfix_' (reader c)"
    "dataBufferRegistery_' (reader c2) = dataBufferRegistery_' (reader c)"
    by (simp_all add: after_read_heap after_read_postfix)
  from sc assms(1,2,7)
  have "r = Inr True \<and> state_' (reader c2) = State_Postfix \<and>
        currentBuffer_' (reader c2) =
             \<lparr>buffer = Ptr Mem_postfix 0, bufferSize = length post, paddingSize = 0,
              publisher = publisher buf\<rparr> \<and>
        published c2 = published c"
    by (auto simp: stateComplete_def checkStatusOfState_def getStateStatus_def
        findStateBuffer_def Let_def sizeof_or_0_def)
  with rb sc pr show ?thesis by simp
qed

lemma step_postfix:
  assumes "state_' (reader c) = State_Postfix"
    and "currentBuffer_' (reader c) =
           \<lparr>buffer = Ptr Mem_postfix 0, bufferSize = length post, paddingSize = 0, publisher = p\<rparr>"
    and "p \<noteq> 0"
    and "stream c = po @ rest"
    and "length po = length post"
    and "length (postfix_' (reader c)) = length post"
    and "Postfix_t P = Some post"
  shows "\<exists>c3. readBuffer ex P c =
                (if po = post then Inr True else Inl (failure ex postfix_mismatch), c3) \<and>
           published c3 = (if po = post then published c @ [(p, heap c p)] else published c) \<and>
           heap c3 = heap c \<and> stream c3 = rest \<and>
           postfix_' (reader c3) = po \<and>
           dataBufferRegistery_' (reader c3) = dataBufferRegistery_' (reader c) \<and>
           (po = post \<longrightarrow>
              state_' (reader c3) = (if Prefix_t P = None then State_Header else State_Prefix) \<and>
              currentBuffer_' (reader c3) = findStateBuffer P (reader c3) (state_' (reader c3)))"
proof -
  let ?c0 = "after_ignore (after_read c (length post)) 0"
  have rb: "readBuffer ex P c = stateComplete ex P ?c0"
    using assms(2,4,5) readBuffer_enough[of c ex P] by simp
  have pf: "postfix_' (reader ?c0) = po"
    using assms(2,4,5,6) by (simp add: after_read_postfix poke_def)
  obtain r c3 where sc: "stateComplete ex P ?c0 = (r, c3)" by (cases "stateComplete ex P ?c0")
  from stateComplete_proj[OF sc] assms(2,4,5)
  have pr: "heap c3 = heap c" "stream c3 = rest" "postfix_' (reader c3) = po"
    "dataBufferRegistery_' (reader c3) = dataBufferRegistery_' (reader c)"
    using pf by (simp_all add: after_read_heap)
  have hp: "heap ?c0 = heap c"
    using assms(2) by (simp add: after_read_heap)
  show ?thesis
  proof (cases "po = post")
    case False
    with sc pf assms(1,7)
    have "r = Inl (failure ex postfix_mismatch) \<and> published c3 = published c"
      by (auto simp: stateComplete_def checkStatusOfState_def getStateStatus_def
          Member_init_def postfix_mismatch_def)
    with rb sc pr False show ?thesis by simp
  next
    case True
    with sc pf hp assms(1,2,3,7)
    have "r = Inr True \<and> published c3 = published c @ [(p, heap c p)] \<and>
          state_' (reader c3) = (if Prefix_t P = None then State_Header else State_Prefix) \<and>
          currentBuffer_' (reader c3) = findStateBuffer P (reader c3) (state_' (reader c3))"
      by (auto simp: stateComplete_def checkStatusOfState_def getStateStatus_def
          Member_init_def findStateBuffer_def Let_def split: prod.splits)
    with rb sc pr True show ?thesis by simp
  qed
qed

lemma read_starved:
  assumes "stream c = []" "0 < bufferSize (currentBuffer_' (reader c))"
  shows "read ex P c = (Inr False, c)"
proof -
  have "read_block c = Inr (c, True)"
    using assms by (simp add: read_block_eq)
  then have "readBuffer ex P c = (Inr False, c)"
    using assms by (simp add: readBuffer_def)
  then show ?thesis by (subst read.simps) simp
qed

lemma drain_starved:
  assumes "stream c = []" "0 < bufferSize (currentBuffer_' (reader c))"
  shows "drain ex P c = (Inr False, c)"
  using read_starved[OF assms] by (subst drain.simps) simp

lemma awaiting_at_rest:
  assumes "awaiting P c"
  shows "drain ex P c = (Inr False, c)"
proof -
  from assms have "0 < bufferSize (currentBuffer_' (reader c))" "stream c = []"
    by (auto simp: awaiting_def findStateBuffer_def sizeof_Header_def)
  then show ?thesis by (intro drain_starved)
qed

lemma drain_after_frame:
  assumes "stream c = []"
    and "state_' (reader c) = State_Header \<or> state_' (reader c) = State_Prefix"
    and "currentBuffer_' (reader c) = findStateBuffer P (reader c) (state_' (reader c))"
    and "length (postfix_' (reader c)) = sizeof_or_0 (Postfix_t P)"
  shows "\<exists>c'. drain ex P c = (Inr False, c') \<and> published c' = published c \<and> heap c' = heap c \<and>
           awaiting P c' \<and> dataBufferRegistery_' (reader c') = dataBufferRegistery_' (reader c)"
proof (cases "state_' (reader c) = State_Header \<or> 0 < sizeof_or_0 (Prefix_t P)")
  case True
  with assms have aw: "awaiting P c" by (auto simp: awaiting_def)
  from awaiting_at_rest[OF this] aw show ?thesis by simp
next
  case False
  with assms(2) have st: "state_' (reader c) = State_Prefix" and z: "sizeof_or_0 (Prefix_t P) = 0"
    by auto
  then have cb: "currentBuffer_' (reader c) =
      \<lparr>buffer = Ptr Mem_prefix 0, bufferSize = 0, paddingSize = 0, publisher = 0\<rparr>"
    using assms(3) by (simp add: findStateBuffer_def)
  have rb: "readBuffer ex P c = stateComplete ex P c"
    using cb by (simp add: readBuffer_def)
  obtain r c1 where sc: "stateComplete ex P c = (r, c1)" by (cases "stateComplete ex P c")
  from sc st
  have 1: "r = Inr True \<and> state_' (reader c1) = State_Header \<and> published c1 = published c \<and>
        currentBuffer_' (reader c1) = findStateBuffer P (reader c1) State_Header"
    by (auto simp: stateComplete_def checkStatusOfState_def getStateStatus_def
        findStateBuffer_def Let_def sizeof_Header_def)
  from stateComplete_proj[OF sc] assms(1,4)
  have 2: "heap c1 = heap c" "stream c1 = []"
    "dataBufferRegistery_' (reader c1) = dataBufferRegistery_' (reader c)"
    "length (postfix_' (reader c1)) = sizeof_or_0 (Postfix_t P)"
    by simp_all
  from 1 2 have aw: "awaiting P c1" by (simp add: awaiting_def)
  have "read ex P c = (Inr True, c1)"
    using rb sc 1 by (subst read.simps) simp
  then have "drain ex P c = drain ex P c1" by (subst drain.simps) simp
  with awaiting_at_rest[OF aw, of ex] aw 1 2 show ?thesis by simp
qed

lemma drain_frame:
  assumes sync: "state_' (reader c) = State_Header" "currentBuffer_' (reader c) = header_buffer"
      "stream c = Header_bytes h @ payload @ pad @ po"
    and post: "Postfix_t P = Some post" "length (postfix_' (reader c)) = length post"
    and reg: "BufferRegister_find (dataBufferRegistery_' (reader c)) h = buf"
      "buffer buf = Ptr (Mem_extern k) off" "publisher buf = p" "p \<noteq> 0"
    and sizes: "length payload = bufferSize buf" "length pad = paddingSize buf"
      "length po = length post"
  shows "\<exists>c'. drain ex P c =
                (if po = post then Inr False else Inl (failure ex postfix_mismatch), c') \<and>
              published c' =
                (if po = post
                 then published c @ [(p, ((heap c)(k := poke (heap c k) off payload)) p)]
                 else published c) \<and>
              (po = post \<longrightarrow> heap c' = (heap c)(k := poke (heap c k) off payload) \<and>
                 awaiting P c' \<and>
                 dataBufferRegistery_' (reader c') = dataBufferRegistery_' (reader c))"
proof -
  let ?heap = "(heap c)(k := poke (heap c k) off payload)"
  from step_header[of c h "payload @ pad @ po" buf ex P] sync reg
  obtain c1 where 1: "readBuffer ex P c = (Inr True, c1)"
    "state_' (reader c1) = State_Data" "currentBuffer_' (reader c1) = buf"
    "stream c1 = payload @ pad @ po" "heap c1 = heap c" "published c1 = published c"
    "postfix_' (reader c1) = postfix_' (reader c)"
    "dataBufferRegistery_' (reader c1) = dataBufferRegistery_' (reader c)"
    by auto
  from step_data[of c1 buf k off payload pad po P post ex] 1 reg sizes post
  obtain c2 where 2: "readBuffer ex P c1 = (Inr True, c2)"
    "state_' (reader c2) = State_Postfix"
    "currentBuffer_' (reader c2) =
       \<lparr>buffer = Ptr Mem_postfix 0, bufferSize = length post, paddingSize = 0, publisher = p\<rparr>"
    "stream c2 = po" "heap c2 = ?heap" "published c2 = published c"
    "postfix_' (reader c2) = postfix_' (reader c)"
    "dataBufferRegistery_' (reader c2) = dataBufferRegistery_' (reader c)"
    by auto
  from step_postfix[of c2 post p po "[]" P ex] 2 reg sizes post
  obtain c3 where 3: "readBuffer ex P c2 =
                (if po = post then Inr True else Inl (failure ex postfix_mismatch), c3)"
    "published c3 = (if po = post then published c @ [(p, ?heap p)] else published c)"
    "heap c3 = ?heap" "stream c3 = []"
    "postfix_' (reader c3) = po"
    "dataBufferRegistery_' (reader c3) = dataBufferRegistery_' (reader c)"
    "po = post \<longrightarrow>
       state_' (reader c3) = (if Prefix_t P = None then State_Header else State_Prefix) \<and>
       currentBuffer_' (reader c3) = findStateBuffer P (reader c3) (state_' (reader c3))"
    by auto
  have r0: "read ex P c = read ex P c1"
    using 1 by (subst read.simps) simp
  have r1: "read ex P c1 = read ex P c2"
    using 2 by (subst read.simps) simp
  show ?thesis
  proof (cases "po = post")
    case False
    then have "read ex P c2 = (Inl (failure ex postfix_mismatch), c3)"
      using 3 by (subst read.simps) simp
    then have "drain ex P c = (Inl (failure ex postfix_mismatch), c3)"
      using r0 r1 by (subst drain.simps) simp
    with False 3 show ?thesis by simp
  next
    case True
    with 3 have st: "state_' (reader c3) = State_Header \<or> state_' (reader c3) = State_Prefix"
      and cb: "currentBuffer_' (reader c3) = findStateBuffer P (reader c3) (state_' (reader c3))"
      and pf: "length (postfix_' (reader c3)) = sizeof_or_0 (Postfix_t P)"
      and rg: "dataBufferRegistery_' (reader c3) = dataBufferRegistery_' (reader c)"
      using post sizes by (auto simp: sizeof_or_0_def)
    from drain_after_frame[OF 3(4) st cb pf, of ex]
    obtain c' where d: "drain ex P c3 = (Inr False, c')" "published c' = published c3"
      "heap c' = heap c3" "awaiting P c'"
      "dataBufferRegistery_' (reader c') = dataBufferRegistery_' (reader c3)" by auto
    have "drain ex P c = drain ex P c3"
    proof (cases "state_' (reader c3) = State_Header")
      case h: True
      then have "read ex P c2 = (Inr True, c3)"
        using 3 True by (subst read.simps) simp
      then show ?thesis using r0 r1 by (subst drain.simps) simp
    next
      case h: False
      then have "read ex P c2 = read ex P c3"
        using 3 True by (subst read.simps) simp
      then have "read ex P c = read ex P c3" using r0 r1 by simp
      then show ?thesis by (subst (1 2) drain.simps) simp
    qed
    with d 3 True rg show ?thesis by simp
  qed
qed

lemma step_prefix:
  assumes "state_' (reader c) = State_Prefix"
    and "currentBuffer_' (reader c) =
           \<lparr>buffer = Ptr Mem_prefix 0, bufferSize = length pr, paddingSize = 0, publisher = 0\<rparr>"
    and "stream c = pr @ rest"
  shows "\<exists>c1. readBuffer ex P c = (Inr True, c1) \<and>
           state_' (reader c1) = State_Header \<and> currentBuffer_' (reader c1) = header_buffer \<and>
           stream c1 = rest \<and> heap c1 = heap c \<and> published c1 = published c \<and>
           dataBufferRegistery_' (reader c1) = dataBufferRegistery_' (reader c) \<and>
           postfix_' (reader c1) = postfix_' (reader c)"
proof -
  let ?c0 = "after_ignore (after_read c (length pr)) 0"
  have rb: "readBuffer ex P c = stateComplete ex P ?c0"
    using assms(2,3) readBuffer_enough[of c ex P] by simp
  obtain r c1 where sc: "stateComplete ex P ?c0 = (r, c1)" by (cases "stateComplete ex P ?c0")
  from stateComplete_proj[OF sc] assms(2,3)
  have pr: "heap c1 = heap c" "stream c1 = rest"
    "dataBufferRegistery_' (reader c1) = dataBufferRegistery_' (reader c)"
    "postfix_' (reader c1) = postfix_' (reader c)"
    by (simp_all add: after_read_heap after_read_postfix)
  from sc assms(1)
  have "r = Inr True \<and> state_' (reader c1) = State_Header \<and>
        currentBuffer_' (reader c1) = header_buffer \<and> published c1 = published c"
    by (auto simp: stateComplete_def checkStatusOfState_def getStateStatus_def
        findStateBuffer_def Let_def header_buffer_def)
  with rb sc pr show ?thesis by simp
qed

lemma drain_lead_frame:
  assumes aw: "awaiting P c"
    and post: "Postfix_t P = Some post"
    and reg: "BufferRegister_find (dataBufferRegistery_' (reader c)) h = buf"
      "buffer buf = Ptr (Mem_extern k) off" "publisher buf = p" "p \<noteq> 0"
    and sizes: "length lead = lead_bytes P c" "length payload = bufferSize buf"
      "length pad = paddingSize buf" "length po = length post"
  shows "\<exists>c'. drain ex P (offer c (lead @ Header_bytes h @ payload @ pad @ po)) =
                (if po = post then Inr False else Inl (failure ex postfix_mismatch), c') \<and>
              published c' =
                (if po = post
                 then published c @ [(p, ((heap c)(k := poke (heap c k) off payload)) p)]
                 else published c) \<and>
              (po = post \<longrightarrow> heap c' = (heap c)(k := poke (heap c k) off payload) \<and>
                 awaiting P c' \<and>
                 dataBufferRegistery_' (reader c') = dataBufferRegistery_' (reader c))"
proof (cases "state_' (reader c) = State_Header")
  case True
  let ?c0 = "offer c (Header_bytes h @ payload @ pad @ po)"
  from True sizes have lead: "lead = []" by (simp add: lead_bytes_def)
  from aw True post have 0:
    "state_' (reader ?c0) = State_Header" "currentBuffer_' (reader ?c0) = header_buffer"
    "stream ?c0 = Header_bytes h @ payload @ pad @ po"
    "length (postfix_' (reader ?c0)) = length post"
    by (simp_all add: awaiting_def findStateBuffer_def header_buffer_def sizeof_or_0_def)
  have 1: "heap ?c0 = heap c" "published ?c0 = published c"
    "dataBufferRegistery_' (reader ?c0) = dataBufferRegistery_' (reader c)"
    by (simp_all add: offer_def)
  from reg have reg0: "BufferRegister_find (dataBufferRegistery_' (reader ?c0)) h = buf"
    by (simp add: 1)
  from drain_frame[OF 0(1-3) post 0(4) reg0 reg(2-4) sizes(2-4), of ex]
  show ?thesis unfolding lead 1 by simp
next
  case False
  let ?c0 = "offer c (lead @ Header_bytes h @ payload @ pad @ po)"
  from False aw have st: "state_' (reader c) = State_Prefix" by (auto simp: awaiting_def)
  with aw sizes post have 0:
    "state_' (reader ?c0) = State_Prefix"
    "currentBuffer_' (reader ?c0) =
       \<lparr>buffer = Ptr Mem_prefix 0, bufferSize = length lead, paddingSize = 0, publisher = 0\<rparr>"
    "stream ?c0 = lead @ Header_bytes h @ payload @ pad @ po"
    "length (postfix_' (reader c)) = length post"
    by (simp_all add: awaiting_def findStateBuffer_def lead_bytes_def sizeof_or_0_def)
  from step_prefix[OF 0(1-3), of ex P]
  obtain c1 where 1: "readBuffer ex P ?c0 = (Inr True, c1)"
    "state_' (reader c1) = State_Header" "currentBuffer_' (reader c1) = header_buffer"
    "stream c1 = Header_bytes h @ payload @ pad @ po" "heap c1 = heap c"
    "published c1 = published c"
    "dataBufferRegistery_' (reader c1) = dataBufferRegistery_' (reader c)"
    "postfix_' (reader c1) = postfix_' (reader c)"
    by auto
  have "read ex P ?c0 = (Inr True, c1)"
    using 1 by (subst read.simps) simp
  then have d: "drain ex P ?c0 = drain ex P c1" by (subst drain.simps) simp
  from 1 0 have pf: "length (postfix_' (reader c1)) = length post" by simp
  from reg have reg1: "BufferRegister_find (dataBufferRegistery_' (reader c1)) h = buf"
    by (simp add: 1)
  from drain_frame[OF 1(2-4) post pf reg1 reg(2-4) sizes(2-4), of ex]
  show ?thesis unfolding d 1(5-7) by simp
qed

lemma spoil_postfix:
  fixes post po :: "byte list"
  assumes "xs @ rest = body @ po" "rest \<noteq> []" "length po = length post" "post \<noteq> []"
  shows "\<exists>po' ys. xs @ ys = body @ po' \<and> length po' = length post \<and> po' \<noteq> post"
proof -
  define j where "j = length xs - length body"
  define po' where "po' = take j po @ map (\<lambda>b. b + 1) (drop j post)"
  have ar: "a - b < q" if "a + r = b + q" "0 < r" "0 < q" for a b r q :: nat
    using that by arith
  have "length xs + length rest = length body + length post"
    using assms(1,3) by (metis length_append)
  then have jl: "j < length post"
    unfolding j_def using assms(2,4) by (intro ar[of _ "length rest"]) simp_all
  have len: "length po' = length post"
    using jl assms(3) by (simp add: po'_def)
  have "drop j po' = map (\<lambda>b. b + 1) (drop j post)"
    using jl assms(3) by (simp add: po'_def)
  moreover have "map (\<lambda>b. b + 1) (drop j post) \<noteq> drop j post"
  proof
    assume e: "map (\<lambda>b. b + 1) (drop j post) = drop j post"
    from jl have "drop j post \<noteq> []" by simp
    then obtain b bs where "drop j post = b # bs" by (cases "drop j post") auto
    with e have "b + 1 = b" by simp
    then show False by simp
  qed
  ultimately have ne: "po' \<noteq> post" by auto
  have "xs = take (length xs) (body @ po)"
    using assms(1) by (metis append_eq_conv_conj)
  also have "\<dots> = take (length xs) body @ take j po"
    by (simp add: j_def)
  finally have xs: "xs = take (length xs) body @ take j po" .
  have "\<exists>ys. xs @ ys = body @ po'"
  proof (cases "length xs \<le> length body")
    case True
    then have "j = 0" by (simp add: j_def)
    with xs have "xs = take (length xs) body" by simp
    then have "xs @ (drop (length xs) body @ po') = body @ po'"
      by (metis append_assoc append_take_drop_id)
    then show ?thesis by blast
  next
    case False
    then have "take (length xs) body = body" by simp
    with xs have "xs @ map (\<lambda>b. b + 1) (drop j post) = body @ po'"
      by (simp add: po'_def)
    then show ?thesis by blast
  qed
  with len ne show ?thesis by blast
qed

text \<open>
  What the reader does with a frame that it begins at a frame boundary. A reader that
  awaits a frame, of a protocol with a postfix, is fed in chunks of any sizes the bytes
  its state asks for before the header, whatever these bytes are, then the header of a
  registered type, the payload, the padding and as many bytes as the postfix has. If
  these last bytes are the postfix, \<^verbatim>\<open>publish()\<close> of the registered publisher is called
  exactly once, with the payload in the landing buffer, and the reader awaits the next
  frame with its directory unchanged. If they differ from the postfix, the reader reports
  the postfix error and \<^verbatim>\<open>publish()\<close> is not called. And after any part of the frame that
  lacks at least its last byte, \<^verbatim>\<open>publish()\<close> has not been called.
\<close>

lemma frame_from_boundary:
  assumes aw: "awaiting P c"
    and post: "Postfix_t P = Some post"
    and nonempty: "post \<noteq> []"
    and reg: "BufferRegister_find (dataBufferRegistery_' (reader c)) h = buf"
      "buffer buf = Ptr (Mem_extern k) off" "publisher buf = p" "p \<noteq> 0"
    and sizes: "length lead = lead_bytes P c" "length payload = bufferSize buf"
      "length pad = paddingSize buf" "length po = length post"
    and chunks: "concat chunks = lead @ Header_bytes h @ payload @ pad @ po"
  shows "(po = post \<longrightarrow>
           (\<exists>c'. feed ex P c chunks = (Inr False, c') \<and>
                 published c' = published c @ [(p, heap c' p)] \<and>
                 heap c' = (heap c)(k := poke (heap c k) off payload) \<and>
                 awaiting P c' \<and>
                 dataBufferRegistery_' (reader c') = dataBufferRegistery_' (reader c))) \<and>
         (po \<noteq> post \<longrightarrow>
           (\<exists>c'. feed ex P c chunks = (Inl (failure ex postfix_mismatch), c') \<and>
                 published c' = published c)) \<and>
         (\<forall>early rest. rest \<noteq> [] \<and> concat early @ rest = concat chunks \<longrightarrow>
              published (snd (feed ex P c early)) = published c)"
proof (intro conjI impI allI)
  note rest = awaiting_at_rest[OF aw, of ex]
  note whole = drain_lead_frame[OF aw post reg sizes, of ex]
  {
    assume "po = post"
    with whole show "\<exists>c'. feed ex P c chunks = (Inr False, c') \<and>
                 published c' = published c @ [(p, heap c' p)] \<and>
                 heap c' = (heap c)(k := poke (heap c k) off payload) \<and>
                 awaiting P c' \<and>
                 dataBufferRegistery_' (reader c') = dataBufferRegistery_' (reader c)"
      by (auto simp: feed_concat[OF rest] chunks)
  }
  {
    assume "po \<noteq> post"
    with whole show "\<exists>c'. feed ex P c chunks = (Inl (failure ex postfix_mismatch), c') \<and>
                 published c' = published c"
      by (auto simp: feed_concat[OF rest] chunks)
  }
  {
    fix early rest
    assume a: "rest \<noteq> [] \<and> concat early @ rest = concat chunks"
    then have "concat early @ rest = (lead @ Header_bytes h @ payload @ pad) @ po"
      using chunks by simp
    from spoil_postfix[OF this _ sizes(4) nonempty] a
    obtain po' ys where s: "concat early @ ys = (lead @ Header_bytes h @ payload @ pad) @ po'"
      "length po' = length post" "po' \<noteq> post" by blast
    from drain_lead_frame[OF aw post reg sizes(1-3) s(2), of ex] s(3)
    obtain c' where "drain ex P (offer c (concat early @ ys)) =
        (Inl (failure ex postfix_mismatch), c')" "published c' = published c"
      using s(1) by auto
    from drain_published_mono[OF this]
    show "published (snd (feed ex P c early)) = published c"
      by (simp add: feed_concat[OF rest])
  }
qed

lemma frame_from_boundary_example:
  "awaiting DefaultSerialisation example_awaiting \<and>
   (\<exists>c'. feed True DefaultSerialisation example_awaiting
            (map (\<lambda>b. [b]) (frame DefaultSerialisation 100 [1, 2, 3, 4])) = (Inr False, c') \<and>
         published c' = published example_awaiting @ [(1, [1, 2, 3, 4])] \<and>
         awaiting DefaultSerialisation c') \<and>
   (\<exists>c'. feed False DefaultSerialisation example_awaiting
            [le32 (FourCC 0x53 0x55 0x42 0x30) @ Header_bytes (Header_ctor 100 4),
             [1, 2, 3, 4, 0x0B]] = (Inl AssertionFailure, c') \<and>
         published c' = published example_awaiting) \<and>
   published (snd (feed True DefaultSerialisation example_awaiting
     (map (\<lambda>b. [b]) (butlast (frame DefaultSerialisation 100 [1, 2, 3, 4]))))) =
     published example_awaiting"
proof -
  let ?P = "DefaultSerialisation"
  let ?c = "example_awaiting"
  let ?lead = "le32 (FourCC 0x53 0x55 0x42 0x30)"
  let ?h = "Header_ctor 100 4"
  have aw: "awaiting ?P ?c"
    by code_simp
  have post: "Postfix_t ?P = Some [0x0A]" and nonempty: "[0x0A :: byte] \<noteq> []"
    by (simp_all add: DefaultSerialisation_def)
  have found: "BufferRegister_find (dataBufferRegistery_' (reader ?c)) ?h = example_buffer 1 4"
    by code_simp
  have buf: "buffer (example_buffer 1 4) = Ptr (Mem_extern 1) 0" "publisher (example_buffer 1 4) = 1"
    "(1::nat) \<noteq> 0" "length [1, 2, 3, 4 :: byte] = bufferSize (example_buffer 1 4)"
    "length ([] :: byte list) = paddingSize (example_buffer 1 4)"
    by (simp_all add: example_buffer_def)
  have lead: "length ?lead = lead_bytes ?P ?c"
    by code_simp
  have fr: "frame ?P 100 [1, 2, 3, 4] = ?lead @ Header_bytes ?h @ [1, 2, 3, 4] @ [] @ [0x0A]"
    by code_simp
  have old: "heap ?c 1 = [0xC3, 0xF5, 0x48, 0x40]"
    by code_simp
  have good: "concat (map (\<lambda>b. [b]) (frame ?P 100 [1, 2, 3, 4])) =
      ?lead @ Header_bytes ?h @ [1, 2, 3, 4] @ [] @ [0x0A]"
    by (simp add: fr)
  have bad: "concat [?lead @ Header_bytes ?h, [1, 2, 3, 4, 0x0B]] =
      ?lead @ Header_bytes ?h @ [1, 2, 3, 4] @ [] @ [0x0B]"
    by simp
  have short: "[0x0A :: byte] \<noteq> [] \<and>
      concat (map (\<lambda>b. [b]) (butlast (frame ?P 100 [1, 2, 3, 4]))) @ [0x0A] =
      concat (map (\<lambda>b. [b]) (frame ?P 100 [1, 2, 3, 4]))"
    by (simp add: fr butlast_append)
  have len: "length [0x0A :: byte] = length [0x0A :: byte]"
    and len': "length [0x0B :: byte] = length [0x0A :: byte]"
    by simp_all
  note whole = frame_from_boundary[OF aw post nonempty found buf(1-3) lead buf(4,5) len good,
      of True, THEN conjunct1, rule_format, OF refl]
  note early = frame_from_boundary[OF aw post nonempty found buf(1-3) lead buf(4,5) len good,
      of True, THEN conjunct2, THEN conjunct2, rule_format, OF short]
  note broken = frame_from_boundary[OF aw post nonempty found buf(1-3) lead buf(4,5) len' bad,
      of False, THEN conjunct2, THEN conjunct1, rule_format]
  from whole obtain c1 where 1:
    "feed True ?P ?c (map (\<lambda>b. [b]) (frame ?P 100 [1, 2, 3, 4])) = (Inr False, c1)"
    "published c1 = published ?c @ [(1, heap c1 1)]"
    "heap c1 = (heap ?c)(1 := poke (heap ?c 1) 0 [1, 2, 3, 4])"
    "awaiting ?P c1"
    by auto
  from 1(3) old have "heap c1 1 = [1, 2, 3, 4]"
    by (simp add: poke_def)
  with 1 have A: "\<exists>c'. feed True ?P ?c (map (\<lambda>b. [b]) (frame ?P 100 [1, 2, 3, 4])) = (Inr False, c') \<and>
         published c' = published ?c @ [(1, [1, 2, 3, 4])] \<and> awaiting ?P c'"
    by simp
  from broken have B: "\<exists>c'. feed False ?P ?c [?lead @ Header_bytes ?h, [1, 2, 3, 4, 0x0B]] =
      (Inl AssertionFailure, c') \<and> published c' = published ?c"
    by (simp add: failure_def)
  from aw A B early show ?thesis
    by (intro conjI)
qed

end
